theory Spec2Isabelle
  imports Main
begin

section \<open>Scenario normalisation in \<open>generateScenario\<close> (src/services/ai.ts)\<close>

text \<open>
  The development embeds the post-processing block of \<open>generateScenario\<close>: the scan of the
  code template for \<open>___BLANK_<n>___\<close> markers, the renumbering of the markers in physical
  order, the relocation of the steps and the rewriting of the \<open>At Blank <n>\<close> references in
  the step instructions and in the context.

  Modelling conventions.
  \<^item> A JavaScript string is a \<open>string\<close>; a \<open>char\<close> stands for one code unit below 256.
    The class \<open>\s\<close> restricted to that range is the set of codes 9 to 13, 32 and 160; the
    class \<open>\d\<close> is \<open>0\<close> to \<open>9\<close>; the flag \<open>i\<close> identifies an ASCII letter with its other case
    only (without the flag \<open>u\<close> no character beyond ASCII is identified with an ASCII one).
  \<^item> \<open>parseInt\<close> of a digit string is its value as a natural number and \<open>`${n}`\<close> is the
    decimal numeral of \<open>n\<close>. This is what the code computes as long as the value is exactly
    representable as a JavaScript number (below \<open>2^53\<close>); beyond, the code rounds. Every
    statement about \<open>idMap\<close> or about the rewritten references therefore assumes
    \<open>exact_indices\<close>: all declared indices of the template are below \<open>2^53\<close>. A number
    read from the context may be larger: it is rounded to a number that is not below
    \<open>2^53\<close>, so it is no key of \<open>idMap\<close>, in the code as here. A declared index that
    selects a step, or that is at most the number of markers, is bounded by the length
    of an array or of a string and needs no assumption.
  \<^item> Every pattern of the source is a chain of literal characters and greedy classes, each
    class followed by a character outside the class, so the backtracking matcher succeeds
    at a position exactly when the greedy left-to-right reading does.
  \<^item> The scenario is the object assembled just before the block, typed as \<open>LogicScenario\<close>
    declares it: \<open>codeTemplate\<close> is a string (\<open>generated.codeTemplate || ''\<close>), every step
    is an object with the four string fields the assembly copies, hence truthy, and the
    optional fields \<open>commandPattern\<close> and \<open>captureVariable\<close> are never set. On such input
    the block raises nothing, so \<open>postProcess\<close> is a total function into scenarios.
\<close>

subsection \<open>Data\<close>

datatype Difficulty = Junior | Mid | Senior

record LogicStep =
  step_id :: string
  instruction :: string
  expectedAnswer :: string
  outputSimulation :: string

record LogicScenario =
  scenario_id :: string
  title :: string
  description :: string
  difficulty :: Difficulty
  environment :: string
  context_text :: string
  codeTemplate :: string
  steps :: "LogicStep list"

text \<open>One entry of \<open>foundBlanks\<close>.\<close>

record FoundBlank =
  originalId :: nat
  index :: nat
  marker :: string

subsection \<open>Characters, numerals, substrings\<close>

definition is_digit :: "char \<Rightarrow> bool" where
  "is_digit c = (48 \<le> (of_char c :: nat) \<and> (of_char c :: nat) \<le> 57)"

definition is_space :: "char \<Rightarrow> bool" where
  "is_space c = ((9 \<le> (of_char c :: nat) \<and> (of_char c :: nat) \<le> 13)
                 \<or> (of_char c :: nat) = 32 \<or> (of_char c :: nat) = 160)"

text \<open>Equality of characters under the flag \<open>i\<close>, for a pattern character that is a letter.\<close>

definition ci_eq :: "char \<Rightarrow> char \<Rightarrow> bool" where
  "ci_eq p c = (c = p \<or>
     (if 65 \<le> (of_char p :: nat) \<and> (of_char p :: nat) \<le> 90
        then (of_char c :: nat) = of_char p + 32
      else if 97 \<le> (of_char p :: nat) \<and> (of_char p :: nat) \<le> 122
        then (of_char c :: nat) + 32 = of_char p
      else False))"

definition ci_prefix :: "string \<Rightarrow> string \<Rightarrow> bool" where
  "ci_prefix p s = (length p \<le> length s \<and> list_all2 ci_eq p (take (length p) s))"

definition digit_char :: "nat \<Rightarrow> char" where
  "digit_char d = char_of (48 + d)"

definition digit_val :: "char \<Rightarrow> nat" where
  "digit_val c = of_char c - 48"

text \<open>\<open>parseInt\<close> on a string of decimal digits: the exact value, which is the result of
  the code for values below \<open>2^53\<close> (see \<open>exact_indices\<close>).\<close>

definition parseInt :: "string \<Rightarrow> nat" where
  "parseInt ds = foldl (\<lambda>acc c. acc * 10 + digit_val c) 0 ds"

text \<open>The template literal \<open>`${n}`\<close> for a natural number.\<close>

fun show_nat :: "nat \<Rightarrow> string" where
  "show_nat n = (if n < 10 then [digit_char n]
                 else show_nat (n div 10) @ [digit_char (n mod 10)])"

declare show_nat.simps [simp del]

text \<open>\<open>String.prototype.substring(a, b)\<close>: both arguments are clamped to the length and
  swapped when out of order.\<close>

definition substring :: "string \<Rightarrow> nat \<Rightarrow> nat \<Rightarrow> string" where
  "substring s a b =
     (let a' = min a (length s); b' = min b (length s);
          lo = min a' b'; hi = max a' b'
      in take (hi - lo) (drop lo s))"

subsection \<open>The marker scan\<close>

text \<open>The pattern \<open>___BLANK_(\d+)___\<close> tried at the head of a string: the captured digits.\<close>

definition match_blank :: "string \<Rightarrow> string option" where
  "match_blank s =
     (if take 9 s = ''___BLANK_'' then
        (let ds = takeWhile is_digit (drop 9 s) in
         if ds \<noteq> [] \<and> take 3 (drop (9 + length ds) s) = ''___'' then Some ds else None)
      else None)"

text \<open>The \<open>while ((match = regex.exec(...)) !== null)\<close> loop: \<open>pos\<close> is the offset of the
  remaining text in the template; after a match the search resumes behind it.\<close>

function findBlanks :: "nat \<Rightarrow> string \<Rightarrow> FoundBlank list" where
  "findBlanks pos [] = []"
| "findBlanks pos (c # cs) =
     (case match_blank (c # cs) of
        Some ds \<Rightarrow>
          \<lparr>originalId = parseInt ds, index = pos, marker = take (12 + length ds) (c # cs)\<rparr>
            # findBlanks (pos + (12 + length ds)) (drop (12 + length ds) (c # cs))
      | None \<Rightarrow> findBlanks (pos + 1) cs)"
  by pat_completeness auto
termination
  by (relation "measure (\<lambda>(pos, s). length s)") auto

text \<open>\<open>idMap\<close>: \<open>foundBlanks.forEach((b, i) => idMap.set(b.originalId, i + 1))\<close>.\<close>

definition build_idMap :: "FoundBlank list \<Rightarrow> (nat \<rightharpoonup> nat)" where
  "build_idMap bs =
     fold (\<lambda>(i, b) m. m(originalId b \<mapsto> i + 1)) (enumerate 0 bs) Map.empty"

subsection \<open>The template rewriter\<close>

definition newMarker :: "nat \<Rightarrow> string" where
  "newMarker i = ''___BLANK_'' @ show_nat (i + 1) @ ''___''"

definition rebuild_step :: "string \<Rightarrow> nat \<times> FoundBlank \<Rightarrow> string \<times> nat \<Rightarrow> string \<times> nat" where
  "rebuild_step t ib st =
     (case ib of (i, b) \<Rightarrow> case st of (rebuilt, lastIdx) \<Rightarrow>
        (rebuilt @ substring t lastIdx (index b) @ newMarker i,
         index b + length (marker b)))"

definition rewriteTemplate :: "string \<Rightarrow> FoundBlank list \<Rightarrow> string" where
  "rewriteTemplate t bs =
     (case fold (rebuild_step t) (enumerate 0 bs) ([], 0) of
        (rebuilt, lastIdx) \<Rightarrow> rebuilt @ drop lastIdx t)"

subsection \<open>The reference patterns\<close>

text \<open>The common head \<open>At\s+Blank\s+\<close> of both reference patterns, under the flag \<open>i\<close>,
  tried at the head of a string: the text behind it.\<close>

definition match_at_blank :: "string \<Rightarrow> string option" where
  "match_at_blank s =
     (if ci_prefix ''At'' s then
        (let r1 = drop 2 s; w1 = takeWhile is_space r1; r2 = dropWhile is_space r1 in
         if w1 \<noteq> [] \<and> ci_prefix ''Blank'' r2 then
           (let r3 = drop 5 r2; w2 = takeWhile is_space r3; r4 = dropWhile is_space r3 in
            if w2 \<noteq> [] then Some r4 else None)
         else None)
      else None)"

text \<open>\<open>new RegExp(`At\\s+Blank\\s+${b.originalId}`, 'gi')\<close> tried at the head of a string:
  the text behind the match.\<close>

definition match_header :: "nat \<Rightarrow> string \<Rightarrow> string option" where
  "match_header d s =
     (case match_at_blank s of
        None \<Rightarrow> None
      | Some r \<Rightarrow>
          if take (length (show_nat d)) r = show_nat d
          then Some (drop (length (show_nat d)) r) else None)"

text \<open>\<open>/At\s+Blank\s+(\d+)/gi\<close> tried at the head of a string: the captured digits and the
  text behind the match.\<close>

definition match_context :: "string \<Rightarrow> (string \<times> string) option" where
  "match_context s =
     (case match_at_blank s of
        None \<Rightarrow> None
      | Some r \<Rightarrow>
          (let ds = takeWhile is_digit r in
           if ds \<noteq> [] then Some (ds, dropWhile is_digit r) else None))"

lemma match_at_blank_shorter:
  "match_at_blank s = Some r \<Longrightarrow> length r < length s"
proof -
  assume a: "match_at_blank s = Some r"
  have l: "length (dropWhile is_space (xs :: string)) \<le> length xs" for xs
    by (rule length_dropWhile_le)
  from a have p: "ci_prefix ''At'' s"
    by (auto simp: match_at_blank_def split: if_splits)
  from a have "r = dropWhile is_space (drop 5 (dropWhile is_space (drop 2 s)))"
    by (auto simp: match_at_blank_def Let_def split: if_splits)
  moreover have "length (dropWhile is_space (drop 5 (dropWhile is_space (drop 2 s))))
      \<le> length (drop 5 (dropWhile is_space (drop 2 s)))"
    by (rule l)
  moreover have "length (drop 5 (dropWhile is_space (drop 2 s)))
      \<le> length (dropWhile is_space (drop 2 s))"
    by simp
  moreover have "length (dropWhile is_space (drop 2 s)) \<le> length (drop 2 s)"
    by (rule l)
  moreover from p have "length (drop 2 s) < length s"
    by (auto simp: ci_prefix_def)
  ultimately show ?thesis
    by simp
qed

lemma match_header_shorter: "match_header d s = Some r \<Longrightarrow> length r < length s"
  by (auto simp: match_header_def split: option.splits if_splits
      dest!: match_at_blank_shorter intro: le_less_trans [rotated])

lemma match_context_shorter: "match_context s = Some (ds, r) \<Longrightarrow> length r < length s"
  by (auto simp: match_context_def Let_def split: option.splits if_splits
      dest!: match_at_blank_shorter
      intro: le_less_trans [OF length_dropWhile_le])

text \<open>\<open>step.instruction.replace(headerRegex, `At Blank ${newStepIdx + 1}`)\<close>: every match,
  leftmost first and without overlap, is replaced; the search resumes behind the match in
  the original text.\<close>

function replace_header :: "nat \<Rightarrow> nat \<Rightarrow> string \<Rightarrow> string" where
  "replace_header d c [] = []"
| "replace_header d c (x # xs) =
     (case match_header d (x # xs) of
        Some r \<Rightarrow> (''At Blank '' @ show_nat c) @ replace_header d c r
      | None \<Rightarrow> x # replace_header d c xs)"
  by pat_completeness auto
termination
  by (relation "measure (\<lambda>(d, c, s). length s)") (auto dest: match_header_shorter)

text \<open>\<open>scenario.context.replace(contextRegex, (match, p1) => ...)\<close>: a match whose number
  is a key of \<open>idMap\<close> with a truthy value is replaced, any other match is copied.\<close>

function replace_context :: "(nat \<rightharpoonup> nat) \<Rightarrow> string \<Rightarrow> string" where
  "replace_context m [] = []"
| "replace_context m (x # xs) =
     (case match_context (x # xs) of
        Some (ds, r) \<Rightarrow>
          (case m (parseInt ds) of
             Some newId \<Rightarrow>
               if newId \<noteq> 0 then ''At Blank '' @ show_nat newId
               else take (length (x # xs) - length r) (x # xs)
           | None \<Rightarrow> take (length (x # xs) - length r) (x # xs))
            @ replace_context m r
      | None \<Rightarrow> x # replace_context m xs)"
  by pat_completeness auto
termination
  by (relation "measure (\<lambda>(m, s). length s)") (auto dest: match_context_shorter)

subsection \<open>The step remapper\<close>

definition sentinel :: "nat \<Rightarrow> LogicStep" where
  "sentinel i = \<lparr>step_id = ''step_'' @ show_nat (i + 1),
                 instruction = ''Missing step definition.'',
                 expectedAnswer = ''???'',
                 outputSimulation = ''''\<rparr>"

text \<open>The body of the second \<open>forEach\<close>: the value stored at \<open>newSteps[i]\<close>. The index
  \<open>originalId - 1\<close> is \<open>-1\<close> for a declared index 0, where \<open>scenario.steps[-1]\<close> is
  undefined; a step object is always truthy.\<close>

definition relocate :: "LogicStep list \<Rightarrow> nat \<Rightarrow> FoundBlank \<Rightarrow> LogicStep" where
  "relocate sts i b =
     (if 1 \<le> originalId b \<and> originalId b - 1 < length sts then
        (sts ! (originalId b - 1))
          \<lparr>step_id := ''step_'' @ show_nat (i + 1),
           instruction :=
             replace_header (originalId b) (i + 1) (instruction (sts ! (originalId b - 1)))\<rparr>
      else sentinel i)"

text \<open>\<open>newSteps\<close> starts as \<open>new Array(foundBlanks.length)\<close>, all holes; the final
  \<open>filter(s => !!s)\<close> drops the holes.\<close>

definition remapSteps :: "LogicStep list \<Rightarrow> FoundBlank list \<Rightarrow> LogicStep list" where
  "remapSteps sts bs =
     (let newSteps = fold (\<lambda>(i, b) arr. arr[i := Some (relocate sts i b)])
                          (enumerate 0 bs) (replicate (length bs) None)
      in map the (filter (\<lambda>s. s \<noteq> None) newSteps))"

subsection \<open>The post-processing block\<close>

text \<open>The scan result after \<open>foundBlanks.sort((a, b) => a.index - b.index)\<close>, and the
  map built from it.\<close>

definition foundBlanks :: "LogicScenario \<Rightarrow> FoundBlank list" where
  "foundBlanks sc = sort_key index (findBlanks 0 (codeTemplate sc))"

definition idMap :: "LogicScenario \<Rightarrow> (nat \<rightharpoonup> nat)" where
  "idMap sc = build_idMap (foundBlanks sc)"

definition postProcess :: "LogicScenario \<Rightarrow> LogicScenario" where
  "postProcess sc =
     (if codeTemplate sc = [] then sc
      else if length (foundBlanks sc) > 0 then
        sc\<lparr>codeTemplate := rewriteTemplate (codeTemplate sc) (foundBlanks sc),
           steps := remapSteps (steps sc) (foundBlanks sc),
           context_text := (if context_text sc \<noteq> []
                            then replace_context (idMap sc) (context_text sc)
                            else context_text sc)\<rparr>
      else sc)"

section \<open>Auxiliary notions\<close>

text \<open>The marker pattern as an automaton: state \<open>n < 9\<close> has read \<open>n\<close> characters of the
  literal head, state 9 waits for the first digit, state 10 has read a digit, states 11
  and 12 have read one and two of the closing underscores.\<close>

fun blank_run :: "nat \<Rightarrow> string \<Rightarrow> bool" where
  "blank_run n [] = False"
| "blank_run n (c # cs) =
    (if n < 9 then c = ''___BLANK_'' ! n \<and> blank_run (Suc n) cs
     else if n = 9 then is_digit c \<and> blank_run 10 cs
     else if n = 10 then (is_digit c \<and> blank_run 10 cs) \<or> (c = CHR ''_'' \<and> blank_run 11 cs)
     else if n = 11 then c = CHR ''_'' \<and> blank_run 12 cs
     else c = CHR ''_'')"

function renumber :: "nat \<Rightarrow> string \<Rightarrow> string" where
  "renumber k [] = []"
| "renumber k (c # cs) =
     (case match_blank (c # cs) of
        Some ds \<Rightarrow> newMarker k @ renumber (Suc k) (drop (12 + length ds) (c # cs))
      | None \<Rightarrow> c # renumber k cs)"
  by pat_completeness auto
termination
  by (relation "measure (\<lambda>(k, s). length s)") auto

text \<open>The text of a template outside its markers: the pieces before, between and behind
  the markers found by the scan, an empty piece where two markers touch.\<close>

function textParts :: "string \<Rightarrow> string list" where
  "textParts [] = [[]]"
| "textParts (c # cs) =
     (case match_blank (c # cs) of
        Some ds \<Rightarrow> [] # textParts (drop (12 + length ds) (c # cs))
      | None \<Rightarrow> (c # hd (textParts cs)) # tl (textParts cs))"
  by pat_completeness auto
termination
  by (relation "measure length") auto

text \<open>A template with its markers stripped.\<close>

function stripMarkers :: "string \<Rightarrow> string" where
  "stripMarkers [] = []"
| "stripMarkers (c # cs) =
     (case match_blank (c # cs) of
        Some ds \<Rightarrow> stripMarkers (drop (12 + length ds) (c # cs))
      | None \<Rightarrow> c # stripMarkers cs)"
  by pat_completeness auto
termination
  by (relation "measure length") auto

text \<open>The reference pattern \<open>At\s+Blank\s+\d+\<close> as an automaton: states 0 and 1 read
  \<open>At\<close>, states 2 and 3 the first run of white space, states 4 to 7 the rest of
  \<open>Blank\<close>, states 8 and 9 the second run of white space; the first digit accepts.\<close>

fun ctx_run :: "nat \<Rightarrow> string \<Rightarrow> bool" where
  "ctx_run n [] = False"
| "ctx_run n (c # cs) =
    (if n = 0 then ci_eq CHR ''A'' c \<and> ctx_run 1 cs
     else if n = 1 then ci_eq CHR ''t'' c \<and> ctx_run 2 cs
     else if n = 2 then is_space c \<and> ctx_run 3 cs
     else if n = 3 then (is_space c \<and> ctx_run 3 cs) \<or> (ci_eq CHR ''B'' c \<and> ctx_run 4 cs)
     else if n = 4 then ci_eq CHR ''l'' c \<and> ctx_run 5 cs
     else if n = 5 then ci_eq CHR ''a'' c \<and> ctx_run 6 cs
     else if n = 6 then ci_eq CHR ''n'' c \<and> ctx_run 7 cs
     else if n = 7 then ci_eq CHR ''k'' c \<and> ctx_run 8 cs
     else if n = 8 then is_space c \<and> ctx_run 9 cs
     else (is_space c \<and> ctx_run 9 cs) \<or> is_digit c)"

text \<open>The texts matched by \<open>At\s+Blank\s+\<close> under the flag \<open>i\<close>.\<close>

definition is_ref_head :: "string \<Rightarrow> bool" where
  "is_ref_head h \<longleftrightarrow>
     (\<exists>a t w1 bl w2. h = a # t # w1 @ bl @ w2 \<and> ci_eq CHR ''A'' a \<and> ci_eq CHR ''t'' t \<and>
        w1 \<noteq> [] \<and> (\<forall>c \<in> set w1. is_space c) \<and> list_all2 ci_eq ''Blank'' bl \<and>
        w2 \<noteq> [] \<and> (\<forall>c \<in> set w2. is_space c))"

text \<open>The numbers of the references found by the context pattern, leftmost first.\<close>

function at_refs :: "string \<Rightarrow> nat list" where
  "at_refs [] = []"
| "at_refs (x # xs) =
     (case match_context (x # xs) of
        Some (ds, r) \<Rightarrow> parseInt ds # at_refs r
      | None \<Rightarrow> at_refs xs)"
  by pat_completeness auto
termination
  by (relation "measure length") (auto dest: match_context_shorter)

text \<open>The number a reference carries after the context rewrite.\<close>

definition canonical :: "(nat \<rightharpoonup> nat) \<Rightarrow> nat \<Rightarrow> nat" where
  "canonical m n = (case m n of Some newId \<Rightarrow> if newId \<noteq> 0 then newId else n | None \<Rightarrow> n)"

text \<open>An instruction in which every match of the header pattern for \<open>d\<close> is already
  spelled \<open>At Blank d\<close>.\<close>

definition header_canonical :: "nat \<Rightarrow> string \<Rightarrow> bool" where
  "header_canonical d s =
     list_all (\<lambda>j.
        case match_header d (drop j s) of
          None \<Rightarrow> True
        | Some r \<Rightarrow> drop j s = ''At Blank '' @ show_nat d @ r) [0 ..< length s]"

text \<open>A context in which every match of the context pattern whose number is a key of the
  map is already spelled \<open>At Blank\<close> followed by the value of the key.\<close>

definition context_canonical :: "(nat \<rightharpoonup> nat) \<Rightarrow> string \<Rightarrow> bool" where
  "context_canonical m s =
     list_all (\<lambda>j.
        case match_context (drop j s) of
          None \<Rightarrow> True
        | Some (ds, r) \<Rightarrow>
            (case m (parseInt ds) of
               None \<Rightarrow> True
             | Some newId \<Rightarrow> drop j s = ''At Blank '' @ show_nat newId @ r)) [0 ..< length s]"

text \<open>A text cut by the scan of the context pattern: a character outside every match, or a
  match with its whole text and the digits it captures.\<close>

datatype piece = Plain char | Reference string string

function pieces :: "string \<Rightarrow> piece list" where
  "pieces [] = []"
| "pieces (x # xs) =
     (case match_context (x # xs) of
        Some (ds, r) \<Rightarrow> Reference (take (length (x # xs) - length r) (x # xs)) ds # pieces r
      | None \<Rightarrow> Plain x # pieces xs)"
  by pat_completeness auto
termination
  by (relation "measure length") (auto dest: match_context_shorter)

fun render :: "piece \<Rightarrow> string" where
  "render (Plain c) = [c]"
| "render (Reference raw ds) = raw"

text \<open>What the callback of the context rewrite makes of a piece under the map \<open>m\<close>: a match
  whose number is a key with a truthy value becomes \<open>At Blank\<close> and the value, anything else
  stays.\<close>

fun respell :: "(nat \<rightharpoonup> nat) \<Rightarrow> piece \<Rightarrow> piece" where
  "respell m (Plain c) = Plain c"
| "respell m (Reference raw ds) =
     (case m (parseInt ds) of
        Some newId \<Rightarrow>
          if newId \<noteq> 0 then Reference (''At Blank '' @ show_nat newId) (show_nat newId)
          else Reference raw ds
      | None \<Rightarrow> Reference raw ds)"

text \<open>Declared indices on which \<open>parseInt\<close> is exact. A JavaScript number holds every
  natural number below \<open>2^53\<close> exactly and rounds larger ones to numbers that are not below
  \<open>2^53\<close>; so when the declared indices are below \<open>2^53\<close>, the keys of \<open>idMap\<close> are the
  declared indices themselves and a number read from the context is a key in the code
  exactly when it is one here. The bound is \<open>2^53 = 9007199254740992\<close>.\<close>

definition exact_indices :: "LogicScenario \<Rightarrow> bool" where
  "exact_indices sc = list_all (\<lambda>d. d < 9007199254740992) (map originalId (foundBlanks sc))"

text \<open>An instruction in which no match of the header pattern for \<open>d\<close> is directly followed
  by a further digit.\<close>

definition header_bounded :: "nat \<Rightarrow> string \<Rightarrow> bool" where
  "header_bounded d s =
     list_all (\<lambda>j.
        case match_header d (drop j s) of
          None \<Rightarrow> True
        | Some r \<Rightarrow> (case r of [] \<Rightarrow> True | c # _ \<Rightarrow> \<not> is_digit c)) [0 ..< length s]"

text \<open>An instruction in which every reference of the form \<open>At Blank <number>\<close> is written
  with the numeral of \<open>d\<close>.\<close>

definition own_header :: "nat \<Rightarrow> string \<Rightarrow> bool" where
  "own_header d s =
     list_all (\<lambda>j.
        case match_context (drop j s) of
          None \<Rightarrow> True
        | Some (ds, r) \<Rightarrow> ds = show_nat d) [0 ..< length s]"

text \<open>A piece after the header rewrite for canonical index \<open>c\<close>, in an instruction whose
  references all name its own declared index.\<close>

fun renamed :: "nat \<Rightarrow> piece \<Rightarrow> piece" where
  "renamed c (Plain x) = Plain x"
| "renamed c (Reference raw ds) = Reference (''At Blank '' @ show_nat c) (show_nat c)"

subsection \<open>The specification's reading of a reference\<close>

text \<open>The reference pattern as the specification words it, \<open>Blank <number>\<close> under the
  flag \<open>i\<close> with no \<open>At\<close> required, tried at the head of a string.\<close>

definition spec_match_blank_ref :: "string \<Rightarrow> (string \<times> string) option" where
  "spec_match_blank_ref s =
     (if ci_prefix ''Blank'' s then
        (let r3 = drop 5 s; w = takeWhile is_space r3; r4 = dropWhile is_space r3;
             ds = takeWhile is_digit r4
         in if w \<noteq> [] \<and> ds \<noteq> [] then Some (ds, dropWhile is_digit r4) else None)
      else None)"

lemma spec_match_blank_ref_shorter:
  "spec_match_blank_ref s = Some (ds, r) \<Longrightarrow> length r < length s"
proof -
  assume a: "spec_match_blank_ref s = Some (ds, r)"
  then have p: "ci_prefix ''Blank'' s"
    and r: "r = dropWhile is_digit (dropWhile is_space (drop 5 s))"
    by (auto simp: spec_match_blank_ref_def Let_def split: if_splits)
  have "length r \<le> length (dropWhile is_space (drop 5 s))"
    unfolding r by (rule length_dropWhile_le)
  also have "\<dots> \<le> length (drop 5 s)" by (rule length_dropWhile_le)
  also have "\<dots> < length s" using p by (auto simp: ci_prefix_def)
  finally show ?thesis .
qed

text \<open>The numbers of the references in the specification's sense, leftmost first.\<close>

function spec_blank_refs :: "string \<Rightarrow> nat list" where
  "spec_blank_refs [] = []"
| "spec_blank_refs (x # xs) =
     (case spec_match_blank_ref (x # xs) of
        Some (ds, r) \<Rightarrow> parseInt ds # spec_blank_refs r
      | None \<Rightarrow> spec_blank_refs xs)"
  by pat_completeness auto
termination
  by (relation "measure length") (auto dest: spec_match_blank_ref_shorter)

subsection \<open>Example scenarios\<close>

definition scenario_of :: "string \<Rightarrow> string \<Rightarrow> LogicStep list \<Rightarrow> LogicScenario" where
  "scenario_of ctx t sts =
     \<lparr>scenario_id = ''gen'', title = ''Generated'', description = ''A generated scenario'',
      difficulty = Mid, environment = ''env'', context_text = ctx, codeTemplate = t,
      steps = sts\<rparr>"

definition step_of :: "string \<Rightarrow> string \<Rightarrow> string \<Rightarrow> LogicStep" where
  "step_of i ins ans =
     \<lparr>step_id = i, instruction = ins, expectedAnswer = ans, outputSimulation = ''ok''\<rparr>"

definition example_312 :: LogicScenario where
  "example_312 = scenario_of ''Fill the blanks.''
     ''___BLANK_3___ ___BLANK_1___ ___BLANK_2___''
     [step_of ''step_1'' ''one'' ''a1'', step_of ''step_2'' ''two'' ''a2'',
      step_of ''step_3'' ''three'' ''a3'']"

definition example_3_markers_2_steps :: LogicScenario where
  "example_3_markers_2_steps = scenario_of ''Fill the blanks.''
     ''x = ___BLANK_1___; y = ___BLANK_2___; z = ___BLANK_3___''
     [step_of ''step_1'' ''one'' ''a1'', step_of ''step_2'' ''two'' ''a2'']"

definition example_duplicate :: LogicScenario where
  "example_duplicate = scenario_of ''Fill the blanks.''
     ''___BLANK_1___ + ___BLANK_1___''
     [step_of ''step_1'' ''one'' ''a1'', step_of ''step_2'' ''two'' ''a2'']"

definition example_swap :: LogicScenario where
  "example_swap = scenario_of ''See Blank 1 and Blank 2.''
     ''A ___BLANK_2___ B ___BLANK_1___ C''
     [step_of ''step_1'' ''At Blank 1: first'' ''a1'',
      step_of ''step_2'' ''At Blank 2: second'' ''a2'']"

definition example_swap_at :: LogicScenario where
  "example_swap_at = scenario_of ''See At Blank 1 and At Blank 2.''
     ''A ___BLANK_2___ B ___BLANK_1___ C''
     [step_of ''step_1'' ''At Blank 1: first'' ''a1'',
      step_of ''step_2'' ''At Blank 2: second'' ''a2'']"

definition example_unmapped :: LogicScenario where
  "example_unmapped = scenario_of ''Swap At Blank 1 with at blank 2; see At Blank 7.''
     ''A ___BLANK_2___ B ___BLANK_1___ C''
     [step_of ''step_1'' ''first'' ''a1'', step_of ''step_2'' ''second'' ''a2'']"

definition example_fill :: LogicScenario where
  "example_fill = scenario_of ''Fill the blanks.''
     ''___BLANK_2___ ___BLANK_1___''
     [step_of ''step_1'' ''at  blank 1: the host'' ''h'',
      step_of ''step_2'' ''Fill Blank 2 with the port'' ''p'']"

definition example_plain :: LogicScenario where
  "example_plain = scenario_of ''at blank 1: nothing to fill'' ''echo hello''
     [step_of ''intro'' ''at blank 1: nothing to fill'' ''a1'']"

definition example_canonical :: LogicScenario where
  "example_canonical = scenario_of ''At Blank 1: pick the image. At Blank 2: pick the tag.''
     ''FROM ___BLANK_1___:___BLANK_2___''
     [step_of ''step_1'' ''At Blank 1: pick the image'' ''alpine'',
      step_of ''step_2'' ''pick the tag'' ''3.20'']"

definition example_lowercase :: LogicScenario where
  "example_lowercase = scenario_of ''at blank 1: pick the image''
     ''FROM ___BLANK_1___''
     [step_of ''step_1'' ''pick the image'' ''alpine'']"

definition example_gap :: LogicScenario where
  "example_gap = scenario_of ''at blank 2: pick the tag''
     ''FROM ___BLANK_1___:___BLANK_3___''
     [step_of ''step_1'' ''pick the image'' ''alpine'', step_of ''step_2'' ''unused'' ''x'',
      step_of ''step_3'' ''pick the tag'' ''3.20'']"

definition example_bare :: LogicScenario where
  "example_bare = scenario_of ''Use Blank 2 first, then Blank 1.''
     ''A ___BLANK_2___ B ___BLANK_1___ C''
     [step_of ''step_1'' ''At Blank 1: first'' ''a1'',
      step_of ''step_2'' ''At Blank 2: second'' ''a2'']"

definition example_cross :: LogicScenario where
  "example_cross = scenario_of ''Fill the blanks.''
     ''A ___BLANK_2___ B ___BLANK_1___ C''
     [step_of ''step_1'' ''At Blank 1: runs after At Blank 2'' ''a1'',
      step_of ''step_2'' ''At Blank 2: runs first'' ''a2'']"

definition example_mixed :: LogicScenario where
  "example_mixed = scenario_of ''See Blank 1, at  blank 2 and At Blank 7.''
     ''A ___BLANK_2___ B ___BLANK_1___ C''
     [step_of ''step_1'' ''At Blank 1: first'' ''a1'',
      step_of ''step_2'' ''At Blank 2: second'' ''a2'']"

section \<open>Basic facts\<close>

subsection \<open>Numerals\<close>

lemma is_digit_digit_char: "d < 10 \<Longrightarrow> is_digit (digit_char d)"
  by (simp add: is_digit_def digit_char_def)

lemma digit_val_digit_char: "d < 10 \<Longrightarrow> digit_val (digit_char d) = d"
  by (simp add: digit_val_def digit_char_def)

lemma show_nat_digits: "\<forall>c \<in> set (show_nat n). is_digit c"
proof (induction n rule: show_nat.induct)
  case (1 n)
  show ?case
  proof (cases "n < 10")
    case True
    then show ?thesis by (subst show_nat.simps) (simp add: is_digit_digit_char)
  next
    case False
    with 1 show ?thesis by (subst show_nat.simps) (simp add: is_digit_digit_char)
  qed
qed

lemma show_nat_nonempty: "show_nat n \<noteq> []"
  by (subst show_nat.simps) simp

lemma parseInt_snoc: "parseInt (ds @ [c]) = parseInt ds * 10 + digit_val c"
  by (simp add: parseInt_def)

lemma parseInt_show_nat: "parseInt (show_nat n) = n"
proof (induction n rule: show_nat.induct)
  case (1 n)
  show ?case
  proof (cases "n < 10")
    case True
    then show ?thesis
      by (subst show_nat.simps) (simp add: parseInt_def digit_val_digit_char)
  next
    case False
    with 1 show ?thesis
      by (subst show_nat.simps) (simp add: parseInt_snoc digit_val_digit_char)
  qed
qed

subsection \<open>The marker pattern and its automaton\<close>

lemma underscore_not_digit: "\<not> is_digit CHR ''_''"
  by (simp add: is_digit_def)

lemma blank_run_12: "blank_run 12 s \<longleftrightarrow> take 1 s = ''_''"
  by (cases s) auto

lemma blank_run_11: "blank_run 11 s \<longleftrightarrow> take 2 s = ''__''"
  by (cases s) (auto simp: blank_run_12 take_Suc_conv_app_nth numeral_2_eq_2)

lemma blank_run_10: "blank_run 10 s \<longleftrightarrow> take 3 (dropWhile is_digit s) = ''___''"
proof (induction s)
  case Nil
  show ?case by simp
next
  case (Cons c cs)
  show ?case
  proof (cases "is_digit c")
    case True
    then have "c \<noteq> CHR ''_''" using underscore_not_digit by auto
    with True Cons show ?thesis by simp
  next
    case False
    then show ?thesis by (auto simp: blank_run_11 numeral_3_eq_3 numeral_2_eq_2)
  qed
qed

lemma blank_run_lit:
  "n \<le> 9 \<Longrightarrow> blank_run n s \<longleftrightarrow> take (9 - n) s = drop n ''___BLANK_'' \<and> blank_run 9 (drop (9 - n) s)"
proof (induction "9 - n" arbitrary: n s)
  case 0
  then show ?case by simp
next
  case (Suc k)
  then have n: "n < 9" "9 - n = Suc k" "k = 9 - Suc n" by auto
  show ?case
  proof (cases s)
    case Nil
    with n show ?thesis by simp
  next
    case (Cons c cs)
    have d: "drop n ''___BLANK_'' = (''___BLANK_'' ! n) # drop (Suc n) ''___BLANK_''"
      using n by (intro Cons_nth_drop_Suc [symmetric]) simp
    have "blank_run n (c # cs) \<longleftrightarrow> c = ''___BLANK_'' ! n \<and> blank_run (Suc n) cs"
      using n by simp
    also have "blank_run (Suc n) cs \<longleftrightarrow>
        take (9 - Suc n) cs = drop (Suc n) ''___BLANK_'' \<and> blank_run 9 (drop (9 - Suc n) cs)"
      using Suc.hyps(1) [of "Suc n" cs] n by simp
    finally show ?thesis
      unfolding Cons d using n by auto
  qed
qed

lemma match_blank_run: "match_blank s \<noteq> None \<longleftrightarrow> blank_run 0 s"
proof -
  let ?r = "drop 9 s"
  have a: "blank_run 0 s \<longleftrightarrow> take 9 s = ''___BLANK_'' \<and> blank_run 9 ?r"
    using blank_run_lit [of 0 s] by simp
  have b: "blank_run 9 ?r \<longleftrightarrow> takeWhile is_digit ?r \<noteq> [] \<and>
      take 3 (drop (9 + length (takeWhile is_digit ?r)) s) = ''___''"
  proof (cases ?r)
    case Nil
    then show ?thesis by simp
  next
    case (Cons c cs)
    have e: "drop (9 + length (takeWhile is_digit ?r)) s = dropWhile is_digit ?r"
      by (simp add: dropWhile_eq_drop add.commute)
    show ?thesis
      unfolding e unfolding Cons by (simp add: blank_run_10)
  qed
  show ?thesis
    unfolding a b by (simp add: match_blank_def Let_def)
qed

lemma blank_run_underscores:
  "1 \<le> n \<Longrightarrow> blank_run n (CHR ''_'' # CHR ''_'' # CHR ''_'' # y) \<longleftrightarrow> 10 \<le> n"
proof -
  assume "1 \<le> n"
  then consider (head) "n \<in> {1, 2, 3, 4}" | (mid) "n \<in> {5, 6, 7, 8, 9}"
    | (tail) "n \<in> {10, 11}" | (last) "12 \<le> n"
    by atomize_elim (simp, arith)
  then show ?thesis
  proof cases
    case head
    then show ?thesis by (elim insertE emptyE) simp_all
  next
    case mid
    then show ?thesis by (elim insertE emptyE) (simp_all add: underscore_not_digit)
  next
    case tail
    then show ?thesis by (elim insertE emptyE) simp_all
  next
    case last
    then show ?thesis by simp
  qed
qed

lemma match_blank_Nil: "match_blank [] = None"
  by (simp add: match_blank_def)

lemma match_blank_SomeD:
  assumes "match_blank s = Some ds"
  shows "ds \<noteq> []" and "\<forall>c \<in> set ds. is_digit c"
    and "s = ''___BLANK_'' @ ds @ ''___'' @ drop (12 + length ds) s"
proof -
  from assms have h: "take 9 s = ''___BLANK_''" and ds: "ds = takeWhile is_digit (drop 9 s)"
    and ne: "ds \<noteq> []" and t: "take 3 (drop (9 + length ds) s) = ''___''"
    by (auto simp: match_blank_def Let_def split: if_splits)
  show "ds \<noteq> []" by (rule ne)
  show "\<forall>c \<in> set ds. is_digit c"
    unfolding ds by (auto dest: set_takeWhileD)
  define r where "r = drop 9 s"
  define r2 where "r2 = drop (length ds) r"
  define r3 where "r3 = drop 3 r2"
  have p: "take (length ds) r = ds"
    unfolding ds r_def by (simp add: takeWhile_eq_take [symmetric])
  have r2: "r2 = drop (9 + length ds) s"
    by (simp add: r2_def r_def add.commute)
  have r3: "r3 = drop (12 + length ds) s"
    by (simp add: r3_def r2 add.commute)
  have "s = take 9 s @ r"
    unfolding r_def by (rule append_take_drop_id [symmetric])
  also have "r = take (length ds) r @ r2"
    unfolding r2_def by (rule append_take_drop_id [symmetric])
  also have "r2 = take 3 r2 @ r3"
    unfolding r3_def by (rule append_take_drop_id [symmetric])
  finally have "s = take 9 s @ take (length ds) r @ take 3 r2 @ r3" .
  then show "s = ''___BLANK_'' @ ds @ ''___'' @ drop (12 + length ds) s"
    using h p t unfolding r2 [symmetric] r3 [symmetric] by simp
qed

lemma drop_head_digits: "length h = 9 \<Longrightarrow> drop (9 + length ds) (h @ ds @ t) = t"
  by simp

lemma match_blank_marker:
  assumes "ds \<noteq> []" and "\<forall>c \<in> set ds. is_digit c"
  shows "match_blank (''___BLANK_'' @ ds @ ''___'' @ r) = Some ds"
proof -
  let ?s = "''___BLANK_'' @ ds @ ''___'' @ r"
  have a: "take 9 ?s = ''___BLANK_''" by simp
  have b: "drop 9 ?s = ds @ ''___'' @ r" by simp
  have c: "takeWhile is_digit (ds @ ''___'' @ r) = ds"
    using assms(2) by (simp add: takeWhile_append2 underscore_not_digit)
  have d: "drop (9 + length ds) ?s = ''___'' @ r"
    using drop_head_digits [of "''___BLANK_''" ds "''___'' @ r"] by simp
  have e: "take 3 (''___'' @ r) = ''___''" by simp
  show ?thesis
    unfolding match_blank_def a b c Let_def d e using assms(1) by simp
qed

lemma length_newMarker: "length (newMarker k) = 12 + length (show_nat (Suc k))"
  by (simp add: newMarker_def)

lemma match_blank_newMarker: "match_blank (newMarker k @ r) = Some (show_nat (Suc k))"
  using match_blank_marker [OF show_nat_nonempty show_nat_digits, of "Suc k" r]
  by (simp add: newMarker_def)

subsection \<open>Renumbering commutes with the scan\<close>

lemma findBlanks_match:
  "match_blank s = Some ds \<Longrightarrow>
   findBlanks p s = \<lparr>originalId = parseInt ds, index = p, marker = take (12 + length ds) s\<rparr>
      # findBlanks (p + (12 + length ds)) (drop (12 + length ds) s)"
  by (cases s) (simp_all add: match_blank_Nil)

lemma findBlanks_nomatch:
  "match_blank (c # cs) = None \<Longrightarrow> findBlanks p (c # cs) = findBlanks (p + 1) cs"
  by simp

lemma renumber_match:
  "match_blank s = Some ds \<Longrightarrow>
   renumber k s = newMarker k @ renumber (Suc k) (drop (12 + length ds) s)"
  by (cases s) (simp_all add: match_blank_Nil)

lemma renumber_nomatch:
  "match_blank (c # cs) = None \<Longrightarrow> renumber k (c # cs) = c # renumber k cs"
  by simp

lemma blank_run_renumber: "1 \<le> n \<Longrightarrow> blank_run n (renumber k s) = blank_run n s"
proof (induction k s arbitrary: n rule: renumber.induct)
  case (1 k)
  show ?case by simp
next
  case (2 k c cs)
  show ?case
  proof (cases "match_blank (c # cs)")
    case None
    have s: "1 \<le> Suc n" "1 \<le> (10::nat)" "1 \<le> (11::nat)" "1 \<le> (12::nat)" by simp_all
    show ?thesis
      unfolding renumber_nomatch [OF None]
      using 2(1) [OF None s(1)] 2(1) [OF None s(2)] 2(1) [OF None s(3)] 2(1) [OF None s(4)]
      by simp
  next
    case (Some ds)
    from match_blank_SomeD(3) [OF Some] obtain y where
      y: "c # cs = CHR ''_'' # CHR ''_'' # CHR ''_'' # y" by auto
    obtain z where z: "renumber k (c # cs) = CHR ''_'' # CHR ''_'' # CHR ''_'' # z"
      unfolding renumber_match [OF Some] by (simp add: newMarker_def)
    show ?thesis
      unfolding z unfolding y using 2(3) by (simp only: blank_run_underscores)
  qed
qed

lemma match_blank_None_renumber:
  assumes "match_blank (c # cs) = None"
  shows "match_blank (c # renumber k cs) = None"
proof -
  from assms have "\<not> blank_run 0 (c # cs)" using match_blank_run [of "c # cs"] by simp
  then have "\<not> blank_run 0 (c # renumber k cs)"
    by (simp add: blank_run_renumber)
  then show ?thesis using match_blank_run [of "c # renumber k cs"]
    by (cases "match_blank (c # renumber k cs)") simp_all
qed
lemma textParts_match:
  "match_blank s = Some ds \<Longrightarrow> textParts s = [] # textParts (drop (12 + length ds) s)"
  by (cases s) (simp_all add: match_blank_Nil)

lemma stripMarkers_match:
  "match_blank s = Some ds \<Longrightarrow> stripMarkers s = stripMarkers (drop (12 + length ds) s)"
  by (cases s) (simp_all add: match_blank_Nil)

lemma drop_newMarker: "drop (12 + length (show_nat (Suc k))) (newMarker k @ r) = r"
  using length_newMarker [of k] by simp

lemma take_newMarker: "take (12 + length (show_nat (Suc k))) (newMarker k @ r) = newMarker k"
  using length_newMarker [of k] by simp

lemma textParts_renumber: "textParts (renumber k s) = textParts s"
proof (induction k s rule: renumber.induct)
  case (1 k)
  show ?case by simp
next
  case (2 k c cs)
  show ?case
  proof (cases "match_blank (c # cs)")
    case None
    show ?thesis
      unfolding renumber_nomatch [OF None]
      using None match_blank_None_renumber [OF None, of k] 2(1) [OF None] by simp
  next
    case (Some ds)
    show ?thesis
      unfolding renumber_match [OF Some] textParts_match [OF match_blank_newMarker]
        textParts_match [OF Some] drop_newMarker
      using 2(2) [OF Some] by simp
  qed
qed

lemma stripMarkers_renumber: "stripMarkers (renumber k s) = stripMarkers s"
proof (induction k s rule: renumber.induct)
  case (1 k)
  show ?case by simp
next
  case (2 k c cs)
  show ?case
  proof (cases "match_blank (c # cs)")
    case None
    show ?thesis
      unfolding renumber_nomatch [OF None]
      using None match_blank_None_renumber [OF None, of k] 2(1) [OF None] by simp
  next
    case (Some ds)
    show ?thesis
      unfolding renumber_match [OF Some] stripMarkers_match [OF match_blank_newMarker]
        stripMarkers_match [OF Some] drop_newMarker
      using 2(2) [OF Some] by simp
  qed
qed

lemma renumber_idem: "renumber k (renumber k s) = renumber k s"
proof (induction k s rule: renumber.induct)
  case (1 k)
  show ?case by simp
next
  case (2 k c cs)
  show ?case
  proof (cases "match_blank (c # cs)")
    case None
    show ?thesis
      unfolding renumber_nomatch [OF None]
      using match_blank_None_renumber [OF None, of k] 2(1) [OF None] by simp
  next
    case (Some ds)
    show ?thesis
      unfolding renumber_match [OF Some] renumber_match [OF match_blank_newMarker]
        drop_newMarker
      using 2(2) [OF Some] by simp
  qed
qed

lemma upt_add_Suc: "[i ..< i + Suc n] = i # [Suc i ..< Suc i + n]"
  by (simp add: upt_conv_Cons del: upt_Suc)

lemma findBlanks_renumber:
  "map originalId (findBlanks p (renumber k s)) = [Suc k ..< Suc k + length (findBlanks q s)] \<and>
   map marker (findBlanks p (renumber k s)) = map newMarker [k ..< k + length (findBlanks q s)]"
proof (induction k s arbitrary: p q rule: renumber.induct)
  case (1 k)
  show ?case by simp
next
  case (2 k c cs)
  show ?case
  proof (cases "match_blank (c # cs)")
    case None
    show ?thesis
      unfolding renumber_nomatch [OF None]
        findBlanks_nomatch [OF match_blank_None_renumber [OF None]]
        findBlanks_nomatch [OF None]
      by (rule 2(1) [OF None])
  next
    case (Some ds)
    show ?thesis
      unfolding renumber_match [OF Some] findBlanks_match [OF match_blank_newMarker]
        findBlanks_match [OF Some] drop_newMarker take_newMarker
      using 2(2) [OF Some, of "p + (12 + length (show_nat (Suc k)))" "q + (12 + length ds)"]
      by (simp add: parseInt_show_nat upt_conv_Cons del: upt_Suc)
  qed
qed

lemma findBlanks_index_ge: "b \<in> set (findBlanks p s) \<Longrightarrow> p \<le> index b"
proof (induction p s rule: findBlanks.induct)
  case (1 pos)
  then show ?case by simp
next
  case (2 pos c cs)
  show ?case
  proof (cases "match_blank (c # cs)")
    case None
    with 2 show ?thesis by fastforce
  next
    case (Some ds)
    with 2 show ?thesis by fastforce
  qed
qed

lemma findBlanks_sorted: "sorted (map index (findBlanks p s))"
proof (induction p s rule: findBlanks.induct)
  case (1 pos)
  show ?case by simp
next
  case (2 pos c cs)
  show ?case
  proof (cases "match_blank (c # cs)")
    case None
    with 2 show ?thesis by simp
  next
    case (Some ds)
    with 2 show ?thesis by (fastforce dest: findBlanks_index_ge)
  qed
qed

lemma sort_findBlanks: "sort_key index (findBlanks p s) = findBlanks p s"
  by (rule sort_key_id_if_sorted [OF findBlanks_sorted])

subsection \<open>The template rewriter computes the renumbering\<close>

lemma substring_take_drop:
  "a \<le> b \<Longrightarrow> b \<le> length s \<Longrightarrow> substring s a b = take (b - a) (drop a s)"
  by (simp add: substring_def Let_def min_def max_def)

lemma match_blank_length:
  "match_blank s = Some ds \<Longrightarrow> 12 + length ds \<le> length s"
proof -
  assume "match_blank s = Some ds"
  from match_blank_SomeD(3) [OF this]
  have "length s = length (''___BLANK_'' @ ds @ ''___'' @ drop (12 + length ds) s)" by simp
  then show ?thesis by simp
qed

lemma rebuild_fold:
  assumes "drop pos t = s" and "lastIdx \<le> pos"
  shows "(case fold (rebuild_step t) (enumerate k (findBlanks pos s)) (acc, lastIdx) of
            (rebuilt, li) \<Rightarrow> rebuilt @ drop li t)
         = acc @ take (pos - lastIdx) (drop lastIdx t) @ renumber k s"
  using assms
proof (induction pos s arbitrary: k acc lastIdx rule: findBlanks.induct)
  case (1 pos)
  then have "length t \<le> pos" by simp
  then have "take (pos - lastIdx) (drop lastIdx t) = drop lastIdx t" by simp
  then show ?case by simp
next
  case (2 pos c cs)
  from 2(3) have lt: "pos < length t"
    by (metis drop_eq_Nil list.distinct(1) not_le)
  from 2(3) have c: "t ! pos = c" and cs: "drop (pos + 1) t = cs"
    using lt by (simp_all add: Cons_nth_drop_Suc [symmetric])
  show ?case
  proof (cases "match_blank (c # cs)")
    case None
    have e: "take (pos + 1 - lastIdx) (drop lastIdx t)
        = take (pos - lastIdx) (drop lastIdx t) @ [c]"
    proof -
      have "pos + 1 - lastIdx = Suc (pos - lastIdx)" using 2(4) by simp
      moreover have "pos - lastIdx < length (drop lastIdx t)" using lt 2(4) by simp
      moreover have "drop lastIdx t ! (pos - lastIdx) = c" using c lt 2(4) by simp
      ultimately show ?thesis by (simp add: take_Suc_conv_app_nth)
    qed
    have "lastIdx \<le> pos + 1" using 2(4) by simp
    from 2(1) [OF None cs this, of k acc] show ?thesis
      unfolding findBlanks_nomatch [OF None] renumber_nomatch [OF None] e by simp
  next
    case (Some ds)
    let ?L = "12 + length ds"
    have len: "length (take ?L (c # cs)) = ?L"
      using match_blank_length [OF Some] by simp
    have d: "drop (pos + ?L) t = drop ?L (c # cs)"
      using 2(3) by (metis add.commute drop_drop)
    have sub: "substring t lastIdx pos = take (pos - lastIdx) (drop lastIdx t)"
      using 2(4) lt by (simp add: substring_take_drop)
    have st: "rebuild_step t (k, \<lparr>originalId = parseInt ds, index = pos,
          marker = take ?L (c # cs)\<rparr>) (acc, lastIdx)
        = (acc @ take (pos - lastIdx) (drop lastIdx t) @ newMarker k, pos + ?L)"
      unfolding rebuild_step_def using len sub by simp
    from 2(2) [OF Some d order_refl, of "Suc k"
        "acc @ take (pos - lastIdx) (drop lastIdx t) @ newMarker k"]
    show ?thesis
      unfolding findBlanks_match [OF Some] renumber_match [OF Some]
      using st by simp
  qed
qed

lemma rewriteTemplate_renumber: "rewriteTemplate t (findBlanks 0 t) = renumber 0 t"
  using rebuild_fold [of 0 t t 0 0 "[]"] by (simp add: rewriteTemplate_def)

subsection \<open>The step list\<close>

lemma fold_newSteps:
  "k + length bs \<le> length arr \<Longrightarrow>
   fold (\<lambda>(i, b) arr. arr[i := Some (f i b)]) (enumerate k bs) arr
   = take k arr @ map (\<lambda>(i, b). Some (f i b)) (enumerate k bs) @ drop (k + length bs) arr"
proof (induction bs arbitrary: k arr)
  case Nil
  show ?case by simp
next
  case (Cons b bs)
  have l: "Suc k + length bs \<le> length (arr[k := Some (f k b)])"
    using Cons.prems by simp
  have k: "k < length arr" using Cons.prems by simp
  have "take (Suc k) (arr[k := Some (f k b)]) = take k arr @ [Some (f k b)]"
    using k by (simp add: take_Suc_conv_app_nth)
  then show ?case
    using Cons.IH [OF l] by simp
qed

lemma remapSteps_map:
  "remapSteps sts bs = map (\<lambda>(i, b). relocate sts i b) (enumerate 0 bs)"
proof -
  have "fold (\<lambda>(i, b) arr. arr[i := Some (relocate sts i b)]) (enumerate 0 bs)
          (replicate (length bs) None)
        = map (\<lambda>(i, b). Some (relocate sts i b)) (enumerate 0 bs)"
    using fold_newSteps [of 0 bs "replicate (length bs) None" "relocate sts"] by simp
  then show ?thesis
    by (simp add: remapSteps_def Let_def filter_map comp_def case_prod_unfold)
qed

lemma length_remapSteps: "length (remapSteps sts bs) = length bs"
  by (simp add: remapSteps_map)

lemma nth_remapSteps: "i < length bs \<Longrightarrow> remapSteps sts bs ! i = relocate sts i (bs ! i)"
  by (simp add: remapSteps_map nth_enumerate_eq)

subsection \<open>The index map\<close>

lemma build_idMap_snoc:
  "build_idMap (bs @ [b]) = (build_idMap bs)(originalId b \<mapsto> length bs + 1)"
  by (simp add: build_idMap_def enumerate_append_eq)

lemma build_idMap_last:
  "i < length bs \<Longrightarrow> \<forall>j. i < j \<and> j < length bs \<longrightarrow> originalId (bs ! j) \<noteq> originalId (bs ! i) \<Longrightarrow>
   build_idMap bs (originalId (bs ! i)) = Some (i + 1)"
proof (induction bs rule: rev_induct)
  case Nil
  then show ?case by simp
next
  case (snoc b bs)
  show ?case
  proof (cases "i = length bs")
    case True
    then show ?thesis by (simp add: build_idMap_snoc)
  next
    case False
    with snoc.prems(1) have i: "i < length bs" by simp
    have ne: "originalId b \<noteq> originalId (bs ! i)"
      using snoc.prems(2) [rule_format, of "length bs"] i by (simp add: nth_append)
    have "\<forall>j. i < j \<and> j < length bs \<longrightarrow> originalId (bs ! j) \<noteq> originalId (bs ! i)"
      using snoc.prems(2) i by (auto simp: nth_append)
    from snoc.IH [OF i this] show ?thesis
      using ne i by (simp add: build_idMap_snoc nth_append)
  qed
qed

subsection \<open>The post-processing block, unfolded\<close>

lemma foundBlanks_eq: "foundBlanks sc = findBlanks 0 (codeTemplate sc)"
  by (simp add: foundBlanks_def sort_findBlanks)

lemma postProcess_eq:
  "postProcess sc =
     (if foundBlanks sc = [] then sc
      else sc\<lparr>codeTemplate := renumber 0 (codeTemplate sc),
              steps := remapSteps (steps sc) (foundBlanks sc),
              context_text := replace_context (idMap sc) (context_text sc)\<rparr>)"
  by (cases "codeTemplate sc = []")
    (simp_all add: postProcess_def foundBlanks_eq rewriteTemplate_renumber)

subsection \<open>The reference patterns\<close>

lemma ci_eq_A: "ci_eq CHR ''A'' c \<longleftrightarrow> c = CHR ''A'' \<or> c = CHR ''a''"
  by (cases c) (auto simp: ci_eq_def)

lemma ci_eq_t: "ci_eq CHR ''t'' c \<longleftrightarrow> c = CHR ''t'' \<or> c = CHR ''T''"
  by (cases c) (auto simp: ci_eq_def)

lemma ci_eq_B: "ci_eq CHR ''B'' c \<longleftrightarrow> c = CHR ''B'' \<or> c = CHR ''b''"
  by (cases c) (auto simp: ci_eq_def)

lemma ci_eq_l: "ci_eq CHR ''l'' c \<longleftrightarrow> c = CHR ''l'' \<or> c = CHR ''L''"
  by (cases c) (auto simp: ci_eq_def)

lemma ci_eq_a: "ci_eq CHR ''a'' c \<longleftrightarrow> c = CHR ''a'' \<or> c = CHR ''A''"
  by (cases c) (auto simp: ci_eq_def)

lemma ci_eq_n: "ci_eq CHR ''n'' c \<longleftrightarrow> c = CHR ''n'' \<or> c = CHR ''N''"
  by (cases c) (auto simp: ci_eq_def)

lemma ci_eq_k: "ci_eq CHR ''k'' c \<longleftrightarrow> c = CHR ''k'' \<or> c = CHR ''K''"
  by (cases c) (auto simp: ci_eq_def)

lemmas ci_eq_letters = ci_eq_A ci_eq_t ci_eq_B ci_eq_l ci_eq_a ci_eq_n ci_eq_k

lemma space_not_digit: "is_space c \<Longrightarrow> \<not> is_digit c"
  by (auto simp: is_space_def is_digit_def)

lemma ci_A_not_digit: "ci_eq CHR ''A'' c \<Longrightarrow> \<not> is_digit c"
  by (auto simp: ci_eq_A is_digit_def)

lemma ci_B_not_space: "ci_eq CHR ''B'' c \<Longrightarrow> \<not> is_space c"
  by (auto simp: ci_eq_B is_space_def)
lemma takeWhile_run:
  "\<forall>c \<in> set w. P c \<Longrightarrow> r = [] \<or> \<not> P (hd r) \<Longrightarrow> takeWhile P (w @ r) = w"
  by (cases r) (simp_all add: takeWhile_tail)

lemma dropWhile_run:
  "\<forall>c \<in> set w. P c \<Longrightarrow> r = [] \<or> \<not> P (hd r) \<Longrightarrow> dropWhile P (w @ r) = r"
  by (cases r) (simp_all add: dropWhile_append2)

lemma hd_dropWhile_not: "dropWhile P xs = [] \<or> \<not> P (hd (dropWhile P xs))"
  using hd_dropWhile [of P xs] by blast

lemma ci_prefix_At:
  "ci_prefix ''At'' s \<longleftrightarrow> (\<exists>a t r. s = a # t # r \<and> ci_eq CHR ''A'' a \<and> ci_eq CHR ''t'' t)"
proof (cases s)
  case Nil
  then show ?thesis by (simp add: ci_prefix_def)
next
  case (Cons a s')
  then show ?thesis by (cases s') (auto simp: ci_prefix_def)
qed

lemma ci_prefix_Blank:
  "ci_prefix ''Blank'' s \<longleftrightarrow>
     (list_all2 ci_eq ''Blank'' (take 5 s) \<and> s = take 5 s @ drop 5 s \<and> length (take 5 s) = 5)"
proof -
  have l: "length ''Blank'' = 5" by simp
  show ?thesis
    unfolding ci_prefix_def l by auto
qed

lemma ci_prefix_Blank_append:
  "list_all2 ci_eq ''Blank'' bl \<Longrightarrow> ci_prefix ''Blank'' (bl @ r) \<and> drop 5 (bl @ r) = r"
proof -
  assume a: "list_all2 ci_eq ''Blank'' bl"
  then have "length bl = 5" by (auto dest: list_all2_lengthD)
  moreover have l: "length ''Blank'' = 5" by simp
  ultimately show ?thesis
    unfolding ci_prefix_def l using a by simp
qed

lemma Blank_hd_not_space:
  "list_all2 ci_eq ''Blank'' bl \<Longrightarrow> bl \<noteq> [] \<and> \<not> is_space (hd bl)"
  by (cases bl) (auto dest: ci_B_not_space)

lemma match_at_blank_SomeD:
  assumes "match_at_blank s = Some r"
  obtains a t w1 bl w2 where "s = a # t # w1 @ bl @ w2 @ r"
    and "ci_eq CHR ''A'' a" and "ci_eq CHR ''t'' t"
    and "w1 \<noteq> []" and "\<forall>c \<in> set w1. is_space c"
    and "list_all2 ci_eq ''Blank'' bl"
    and "w2 \<noteq> []" and "\<forall>c \<in> set w2. is_space c"
    and "r = [] \<or> \<not> is_space (hd r)"
proof -
  define r1 where "r1 = drop 2 s"
  define w1 where "w1 = takeWhile is_space r1"
  define r2 where "r2 = dropWhile is_space r1"
  define r3 where "r3 = drop 5 r2"
  define w2 where "w2 = takeWhile is_space r3"
  from assms have p: "ci_prefix ''At'' s" and w1: "w1 \<noteq> []" and b: "ci_prefix ''Blank'' r2"
    and w2: "w2 \<noteq> []" and r: "r = dropWhile is_space r3"
    unfolding r1_def w1_def r2_def r3_def w2_def match_at_blank_def
    by (auto simp: Let_def split: if_splits)
  from p obtain a t where s: "s = a # t # r1" and a: "ci_eq CHR ''A'' a" and t: "ci_eq CHR ''t'' t"
    unfolding r1_def ci_prefix_At by auto
  have e1: "r1 = w1 @ r2" unfolding w1_def r2_def by simp
  from b have e2: "r2 = take 5 r2 @ r3" and bl: "list_all2 ci_eq ''Blank'' (take 5 r2)"
    unfolding r3_def ci_prefix_Blank by simp_all
  have e3: "r3 = w2 @ r" unfolding w2_def r by simp
  have "s = a # t # w1 @ take 5 r2 @ w2 @ r"
    using s e1 e2 e3 by simp
  moreover have "\<forall>c \<in> set w1. is_space c" unfolding w1_def by (auto dest: set_takeWhileD)
  moreover have "\<forall>c \<in> set w2. is_space c" unfolding w2_def by (auto dest: set_takeWhileD)
  moreover have "r = [] \<or> \<not> is_space (hd r)" unfolding r by (rule hd_dropWhile_not)
  ultimately show thesis using that a t w1 bl w2 by blast
qed

lemma match_at_blank_compose:
  assumes "ci_eq CHR ''A'' a" and "ci_eq CHR ''t'' t"
    and "w1 \<noteq> []" and "\<forall>c \<in> set w1. is_space c"
    and "list_all2 ci_eq ''Blank'' bl"
    and "w2 \<noteq> []" and "\<forall>c \<in> set w2. is_space c"
    and "r = [] \<or> \<not> is_space (hd r)"
  shows "match_at_blank (a # t # w1 @ bl @ w2 @ r) = Some r"
proof -
  let ?s = "a # t # w1 @ bl @ w2 @ r"
  have p: "ci_prefix ''At'' ?s" unfolding ci_prefix_At using assms(1,2) by blast
  have d: "drop 2 ?s = w1 @ (bl @ w2 @ r)" by simp
  have h: "bl @ w2 @ r = [] \<or> \<not> is_space (hd (bl @ w2 @ r))"
    using Blank_hd_not_space [OF assms(5)] by simp
  have t1: "takeWhile is_space (w1 @ (bl @ w2 @ r)) = w1"
    by (rule takeWhile_run [OF assms(4) h])
  have d1: "dropWhile is_space (w1 @ (bl @ w2 @ r)) = bl @ (w2 @ r)"
    using dropWhile_run [OF assms(4) h] by simp
  have b: "ci_prefix ''Blank'' (bl @ (w2 @ r))" and d5: "drop 5 (bl @ (w2 @ r)) = w2 @ r"
    using ci_prefix_Blank_append [OF assms(5), of "w2 @ r"] by simp_all
  have t2: "takeWhile is_space (w2 @ r) = w2"
    by (rule takeWhile_run [OF assms(7,8)])
  have d2: "dropWhile is_space (w2 @ r) = r"
    by (rule dropWhile_run [OF assms(7,8)])
  show ?thesis
    unfolding match_at_blank_def d Let_def t1 d1 d5 t2 d2
    using p b assms(3,6) by simp
qed
lemma ci_prefix_Nil: "ci_prefix [] s"
  by (simp add: ci_prefix_def)

lemma ci_prefix_Cons_Nil: "\<not> ci_prefix (p # ps) []"
  by (simp add: ci_prefix_def)

lemma ci_prefix_Cons: "ci_prefix (p # ps) (c # cs) \<longleftrightarrow> ci_eq p c \<and> ci_prefix ps cs"
  by (auto simp: ci_prefix_def)

lemmas ci_prefix_simps = ci_prefix_Nil ci_prefix_Cons_Nil ci_prefix_Cons

subsection \<open>The automaton of the context pattern\<close>

lemma ctx_run_9: "ctx_run 9 s \<longleftrightarrow> takeWhile is_digit (dropWhile is_space s) \<noteq> []"
proof (induction s)
  case Nil
  show ?case by simp
next
  case (Cons c cs)
  show ?case
  proof (cases "is_space c")
    case True
    with Cons space_not_digit [OF True] show ?thesis by simp
  next
    case False
    then show ?thesis by simp
  qed
qed

lemma ctx_run_8:
  "ctx_run 8 s \<longleftrightarrow>
     takeWhile is_space s \<noteq> [] \<and> takeWhile is_digit (dropWhile is_space s) \<noteq> []"
  by (cases s) (auto simp: ctx_run_9)

lemma ctx_run_7: "ctx_run 7 s \<longleftrightarrow> ci_prefix ''k'' s \<and> ctx_run 8 (drop 1 s)"
  by (cases s) (simp_all add: ci_prefix_simps)

lemma ctx_run_6: "ctx_run 6 s \<longleftrightarrow> ci_prefix ''nk'' s \<and> ctx_run 8 (drop 2 s)"
  by (cases s) (simp_all add: ci_prefix_simps ctx_run_7 numeral_2_eq_2)

lemma ctx_run_5: "ctx_run 5 s \<longleftrightarrow> ci_prefix ''ank'' s \<and> ctx_run 8 (drop 3 s)"
  by (cases s) (simp_all add: ci_prefix_simps ctx_run_6 numeral_3_eq_3 numeral_2_eq_2)

lemma ctx_run_4: "ctx_run 4 s \<longleftrightarrow> ci_prefix ''lank'' s \<and> ctx_run 8 (drop 4 s)"
proof (cases s)
  case Nil
  then show ?thesis by (simp add: ci_prefix_simps)
next
  case (Cons c cs)
  have "drop 4 (c # cs) = drop 3 cs" by (simp add: drop_Cons')
  then show ?thesis unfolding Cons by (simp add: ci_prefix_simps ctx_run_5)
qed

lemma ctx_run_3:
  "ctx_run 3 s \<longleftrightarrow>
     ci_prefix ''Blank'' (dropWhile is_space s) \<and> ctx_run 8 (drop 5 (dropWhile is_space s))"
proof (induction s)
  case Nil
  show ?case by (simp add: ci_prefix_simps)
next
  case (Cons c cs)
  show ?case
  proof (cases "is_space c")
    case True
    then have "\<not> ci_eq CHR ''B'' c" using ci_B_not_space by blast
    with True Cons show ?thesis by simp
  next
    case False
    have "drop 5 (c # cs) = drop 4 cs" by (simp add: drop_Cons')
    with False show ?thesis by (simp add: ci_prefix_simps ctx_run_4)
  qed
qed

lemma ctx_run_2:
  "ctx_run 2 s \<longleftrightarrow>
     takeWhile is_space s \<noteq> [] \<and> ci_prefix ''Blank'' (dropWhile is_space s)
     \<and> ctx_run 8 (drop 5 (dropWhile is_space s))"
  by (cases s) (auto simp: ctx_run_3)

lemma ctx_run_0: "ctx_run 0 s \<longleftrightarrow> ci_prefix ''At'' s \<and> ctx_run 2 (drop 2 s)"
proof (cases s)
  case Nil
  then show ?thesis by (simp add: ci_prefix_simps)
next
  case (Cons a s')
  then show ?thesis by (cases s') (simp_all add: ci_prefix_simps)
qed

lemma match_context_run: "match_context s = None \<longleftrightarrow> \<not> ctx_run 0 s"
  unfolding ctx_run_0 ctx_run_2 ctx_run_8
  by (simp add: match_context_def match_at_blank_def Let_def split: option.splits)

lemma ctx_run_At:
  "ci_eq CHR ''A'' a \<Longrightarrow> ci_eq CHR ''t'' t \<Longrightarrow> 1 \<le> n \<Longrightarrow> \<not> ctx_run n (a # t # z)"
proof -
  assume a: "ci_eq CHR ''A'' a" and t: "ci_eq CHR ''t'' t" and n: "1 \<le> n"
  have na: "\<not> is_space a" "\<not> is_digit a" "\<not> ci_eq CHR ''t'' a" "\<not> ci_eq CHR ''B'' a"
    "\<not> ci_eq CHR ''l'' a" "\<not> ci_eq CHR ''n'' a" "\<not> ci_eq CHR ''k'' a"
    using a by (auto simp: ci_eq_letters is_space_def is_digit_def)
  have nt: "\<not> ci_eq CHR ''n'' t" using t by (auto simp: ci_eq_letters)
  from n consider (five) "n = 5" | (other) "n \<noteq> 0" "n \<noteq> 5" by fastforce
  then show ?thesis
  proof cases
    case five
    then show ?thesis using nt by simp
  next
    case other
    then show ?thesis using na by simp
  qed
qed

subsection \<open>Shape of a reference\<close>

lemma is_ref_head_At_Blank: "is_ref_head ''At Blank ''"
proof -
  have "''At Blank '' = CHR ''A'' # CHR ''t'' # '' '' @ ''Blank'' @ '' ''" by simp
  moreover have "list_all2 ci_eq ''Blank'' ''Blank''" by (simp add: ci_eq_def)
  moreover have "ci_eq CHR ''A'' CHR ''A''" "ci_eq CHR ''t'' CHR ''t''" by (simp_all add: ci_eq_def)
  moreover have "\<forall>c \<in> set '' ''. is_space c" by (simp add: is_space_def)
  ultimately show ?thesis unfolding is_ref_head_def by blast
qed

lemma is_ref_head_At:
  "is_ref_head h \<Longrightarrow> \<exists>a t z. h = a # t # z \<and> ci_eq CHR ''A'' a \<and> ci_eq CHR ''t'' t"
  unfolding is_ref_head_def by blast

lemma match_at_blank_head:
  "match_at_blank s = Some r \<Longrightarrow>
   \<exists>h. is_ref_head h \<and> s = h @ r \<and> (r = [] \<or> \<not> is_space (hd r))"
proof -
  assume "match_at_blank s = Some r"
  from match_at_blank_SomeD [OF this] obtain a t w1 bl w2 where
    "s = a # t # w1 @ bl @ w2 @ r" "ci_eq CHR ''A'' a" "ci_eq CHR ''t'' t"
    "w1 \<noteq> []" "\<forall>c \<in> set w1. is_space c" "list_all2 ci_eq ''Blank'' bl"
    "w2 \<noteq> []" "\<forall>c \<in> set w2. is_space c" "r = [] \<or> \<not> is_space (hd r)" by blast
  then have "is_ref_head (a # t # w1 @ bl @ w2)" "s = (a # t # w1 @ bl @ w2) @ r"
    unfolding is_ref_head_def by auto
  with \<open>r = [] \<or> \<not> is_space (hd r)\<close> show ?thesis by blast
qed

lemma match_at_blank_of_head:
  "is_ref_head h \<Longrightarrow> r = [] \<or> \<not> is_space (hd r) \<Longrightarrow> match_at_blank (h @ r) = Some r"
proof -
  assume "is_ref_head h" and r: "r = [] \<or> \<not> is_space (hd r)"
  then obtain a t w1 bl w2 where h: "h = a # t # w1 @ bl @ w2"
    and p: "ci_eq CHR ''A'' a" "ci_eq CHR ''t'' t" "w1 \<noteq> []" "\<forall>c \<in> set w1. is_space c"
      "list_all2 ci_eq ''Blank'' bl" "w2 \<noteq> []" "\<forall>c \<in> set w2. is_space c"
    unfolding is_ref_head_def by blast
  from match_at_blank_compose [OF p r] show ?thesis
    unfolding h by simp
qed

lemma match_context_SomeD:
  assumes "match_context s = Some (ds, r)"
  shows "\<exists>h. is_ref_head h \<and> s = h @ ds @ r" and "ds \<noteq> []" and "\<forall>c \<in> set ds. is_digit c"
    and "r = [] \<or> \<not> is_digit (hd r)"
proof -
  from assms obtain r4 where m: "match_at_blank s = Some r4"
    and ds: "ds = takeWhile is_digit r4" and r: "r = dropWhile is_digit r4" and ne: "ds \<noteq> []"
    by (auto simp: match_context_def Let_def split: option.splits if_splits)
  from match_at_blank_head [OF m] obtain h where "is_ref_head h" "s = h @ r4" by blast
  moreover have "r4 = ds @ r" unfolding ds r by simp
  ultimately show "\<exists>h. is_ref_head h \<and> s = h @ ds @ r" by blast
  show "ds \<noteq> []" by (rule ne)
  show "\<forall>c \<in> set ds. is_digit c" unfolding ds by (auto dest: set_takeWhileD)
  show "r = [] \<or> \<not> is_digit (hd r)" unfolding r by (rule hd_dropWhile_not)
qed

lemma match_context_of_head:
  assumes "is_ref_head h" and "ds \<noteq> []" and "\<forall>c \<in> set ds. is_digit c"
    and "r = [] \<or> \<not> is_digit (hd r)"
  shows "match_context (h @ ds @ r) = Some (ds, r)"
proof -
  have "ds @ r = [] \<or> \<not> is_space (hd (ds @ r))"
    using assms(2,3) space_not_digit by (cases ds) auto
  from match_at_blank_of_head [OF assms(1) this]
  have m: "match_at_blank (h @ ds @ r) = Some (ds @ r)" .
  have t: "takeWhile is_digit (ds @ r) = ds" by (rule takeWhile_run [OF assms(3,4)])
  have d: "dropWhile is_digit (ds @ r) = r" by (rule dropWhile_run [OF assms(3,4)])
  show ?thesis
    unfolding match_context_def m using assms(2) by (simp add: t d)
qed

lemma match_context_Nil: "match_context [] = None"
  by (simp add: match_context_def match_at_blank_def ci_prefix_def)

subsection \<open>The context rewrite\<close>

lemma replace_context_match:
  "match_context s = Some (ds, r) \<Longrightarrow>
   replace_context m s =
     (case m (parseInt ds) of
        Some newId \<Rightarrow> if newId \<noteq> 0 then ''At Blank '' @ show_nat newId
                       else take (length s - length r) s
      | None \<Rightarrow> take (length s - length r) s) @ replace_context m r"
proof (cases s)
  case Nil
  assume "match_context s = Some (ds, r)"
  with Nil show ?thesis by (simp add: match_context_Nil)
next
  case (Cons x xs)
  assume "match_context s = Some (ds, r)"
  then show ?thesis unfolding Cons by simp
qed

lemma replace_context_nomatch:
  "match_context (x # xs) = None \<Longrightarrow> replace_context m (x # xs) = x # replace_context m xs"
  by simp

lemma at_refs_match:
  "match_context s = Some (ds, r) \<Longrightarrow> at_refs s = parseInt ds # at_refs r"
  by (cases s) (simp_all add: match_context_Nil)

lemma at_refs_nomatch: "match_context (x # xs) = None \<Longrightarrow> at_refs (x # xs) = at_refs xs"
  by simp

text \<open>The text written for a match: the canonical spelling or the match itself.\<close>

lemma replace_context_match_head:
  assumes "match_context s = Some (ds, r)"
  shows "\<exists>h ds'. is_ref_head h \<and> ds' \<noteq> [] \<and> (\<forall>c \<in> set ds'. is_digit c) \<and>
           parseInt ds' = canonical m (parseInt ds) \<and>
           replace_context m s = h @ ds' @ replace_context m r"
proof -
  from match_context_SomeD [OF assms] obtain h where h: "is_ref_head h" "s = h @ ds @ r"
    and ds: "ds \<noteq> []" "\<forall>c \<in> set ds. is_digit c" by blast
  have raw: "take (length s - length r) s = h @ ds" using h(2) by simp
  show ?thesis
  proof (cases "\<exists>newId. m (parseInt ds) = Some newId \<and> newId \<noteq> 0")
    case True
    then obtain newId where n: "m (parseInt ds) = Some newId" "newId \<noteq> 0" by blast
    have "replace_context m s = ''At Blank '' @ show_nat newId @ replace_context m r"
      unfolding replace_context_match [OF assms] using n by simp
    moreover have "parseInt (show_nat newId) = canonical m (parseInt ds)"
      using n by (simp add: canonical_def parseInt_show_nat)
    ultimately show ?thesis
      using is_ref_head_At_Blank show_nat_nonempty show_nat_digits by blast
  next
    case False
    then have "replace_context m s = h @ ds @ replace_context m r"
      unfolding replace_context_match [OF assms] raw by (auto split: option.splits)
    moreover have "parseInt ds = canonical m (parseInt ds)"
      using False by (auto simp: canonical_def split: option.splits)
    ultimately show ?thesis using h(1) ds by blast
  qed
qed

lemma ctx_run_replace_context: "1 \<le> n \<Longrightarrow> ctx_run n (replace_context m s) = ctx_run n s"
proof (induction m s arbitrary: n rule: replace_context.induct)
  case (1 m)
  show ?case by simp
next
  case (2 m x xs)
  show ?case
  proof (cases "match_context (x # xs)")
    case None
    have s: "1 \<le> (1::nat)" "1 \<le> (2::nat)" "1 \<le> (3::nat)" "1 \<le> (4::nat)" "1 \<le> (5::nat)"
      "1 \<le> (6::nat)" "1 \<le> (7::nat)" "1 \<le> (8::nat)" "1 \<le> (9::nat)" by simp_all
    note ih = s [THEN 2(1) [OF None]]
    show ?thesis
      unfolding replace_context_nomatch [OF None] using ih by simp
  next
    case (Some p)
    obtain ds r where p: "p = (ds, r)" by (cases p)
    note m = Some [unfolded p]
    from match_context_SomeD(1) [OF m] is_ref_head_At obtain a t z where
      "x # xs = a # t # z" "ci_eq CHR ''A'' a" "ci_eq CHR ''t'' t" by (metis append_Cons)
    then have l: "\<not> ctx_run n (x # xs)" using ctx_run_At 2(3) by metis
    from replace_context_match_head [OF m, of m] is_ref_head_At obtain a' t' z' where
      "replace_context m (x # xs) = a' # t' # z'" "ci_eq CHR ''A'' a'" "ci_eq CHR ''t'' t'"
      by (metis append_Cons)
    then have "\<not> ctx_run n (replace_context m (x # xs))" using ctx_run_At 2(3) by metis
    with l show ?thesis by simp
  qed
qed

lemma match_context_None_replace:
  assumes "match_context (x # xs) = None"
  shows "match_context (x # replace_context m xs) = None"
proof -
  from assms have "\<not> ctx_run 0 (x # xs)" using match_context_run by blast
  then have "\<not> ctx_run 0 (x # replace_context m xs)"
    by (simp add: ctx_run_replace_context)
  then show ?thesis using match_context_run by blast
qed

lemma replace_context_no_digit:
  "r = [] \<or> \<not> is_digit (hd r) \<Longrightarrow>
   replace_context m r = [] \<or> \<not> is_digit (hd (replace_context m r))"
proof (cases r)
  case Nil
  then show ?thesis by simp
next
  case (Cons x xs)
  assume a: "r = [] \<or> \<not> is_digit (hd r)"
  show ?thesis
  proof (cases "match_context (x # xs)")
    case None
    then show ?thesis using a Cons by simp
  next
    case (Some p)
    obtain ds r' where p: "p = (ds, r')" by (cases p)
    from replace_context_match_head [OF Some [unfolded p], of m] is_ref_head_At obtain a' t' z' where
      "replace_context m (x # xs) = a' # t' # z'" "ci_eq CHR ''A'' a'"
      by (metis append_Cons)
    then show ?thesis using ci_A_not_digit Cons by simp
  qed
qed

lemma at_refs_replace_context:
  "at_refs (replace_context m s) = map (canonical m) (at_refs s)"
proof (induction m s rule: replace_context.induct)
  case (1 m)
  show ?case by simp
next
  case (2 m x xs)
  show ?case
  proof (cases "match_context (x # xs)")
    case None
    show ?thesis
      unfolding replace_context_nomatch [OF None] at_refs_nomatch [OF None]
        at_refs_nomatch [OF match_context_None_replace [OF None]]
      by (rule 2(1) [OF None])
  next
    case (Some p)
    obtain ds r where p: "p = (ds, r)" by (cases p)
    note m = Some [unfolded p]
    from replace_context_match_head [OF m, of m] obtain h ds' where
      h: "is_ref_head h" "ds' \<noteq> []" "\<forall>c \<in> set ds'. is_digit c"
      "parseInt ds' = canonical m (parseInt ds)"
      "replace_context m (x # xs) = h @ ds' @ replace_context m r" by blast
    have nd: "replace_context m r = [] \<or> \<not> is_digit (hd (replace_context m r))"
      by (rule replace_context_no_digit [OF match_context_SomeD(4) [OF m]])
    have "match_context (replace_context m (x # xs)) = Some (ds', replace_context m r)"
      unfolding h(5) by (rule match_context_of_head [OF h(1,2,3) nd])
    from at_refs_match [OF this] show ?thesis
      unfolding at_refs_match [OF m] using h(4) 2(2) [OF m refl] by simp
  qed
qed
lemma ctx_run_append_At:
  assumes "ci_eq CHR ''A'' a" and "ci_eq CHR ''t'' t"
  shows "1 \<le> n \<Longrightarrow> ctx_run n (xs @ a # t # z) = ctx_run n xs"
proof (induction xs arbitrary: n)
  case Nil
  then show ?case using ctx_run_At [OF assms] by simp
next
  case (Cons x xs)
  have s: "1 \<le> (1::nat)" "1 \<le> (2::nat)" "1 \<le> (3::nat)" "1 \<le> (4::nat)" "1 \<le> (5::nat)"
    "1 \<le> (6::nat)" "1 \<le> (7::nat)" "1 \<le> (8::nat)" "1 \<le> (9::nat)" by simp_all
  note ih = s [THEN Cons.IH]
  show ?case using ih by simp
qed

lemma match_context_None_append:
  assumes "match_context (x # xs) = None" and "ci_eq CHR ''A'' a" and "ci_eq CHR ''t'' t"
  shows "match_context (x # xs @ a # t # z) = None"
proof -
  from assms(1) have "\<not> ctx_run 0 (x # xs)" using match_context_run by blast
  then have "\<not> ctx_run 0 (x # xs @ a # t # z)"
    by (simp add: ctx_run_append_At [OF assms(2,3)])
  then show ?thesis using match_context_run by blast
qed

lemma match_context_Some_append:
  assumes "match_context s = Some (ds, r)" and "ci_eq CHR ''A'' a"
  shows "match_context (s @ a # z) = Some (ds, r @ a # z)"
proof -
  from match_context_SomeD [OF assms(1)] obtain h where h: "is_ref_head h" "s = h @ ds @ r"
    and ds: "ds \<noteq> []" "\<forall>c \<in> set ds. is_digit c" and r: "r = [] \<or> \<not> is_digit (hd r)"
    by blast
  have "r @ a # z = [] \<or> \<not> is_digit (hd (r @ a # z))"
    using r ci_A_not_digit [OF assms(2)] by (cases r) auto
  from match_context_of_head [OF h(1) ds this] show ?thesis
    unfolding h(2) by simp
qed

lemma take_matched_append:
  "length r \<le> length p \<Longrightarrow>
   take (length (p @ q) - length (r @ q)) (p @ q) = take (length p - length r) p"
  by simp

lemma replace_context_append:
  assumes "ci_eq CHR ''A'' a" and "ci_eq CHR ''t'' t"
  shows "replace_context m (pre @ a # t # z)
         = replace_context m pre @ replace_context m (a # t # z)"
proof (induction m pre rule: replace_context.induct)
  case (1 m)
  show ?case by simp
next
  case (2 m x xs)
  show ?case
  proof (cases "match_context (x # xs)")
    case None
    have n: "match_context (x # xs @ a # t # z) = None"
      by (rule match_context_None_append [OF None assms])
    show ?thesis
      using 2(1) [OF None] replace_context_nomatch [OF None, of m]
        replace_context_nomatch [OF n, of m] by simp
  next
    case (Some p)
    obtain ds r where p: "p = (ds, r)" by (cases p)
    note mt = Some [unfolded p]
    have mt': "match_context ((x # xs) @ a # t # z) = Some (ds, r @ a # t # z)"
      by (rule match_context_Some_append [OF mt assms(1)])
    have l: "length r \<le> length (x # xs)"
      using match_context_shorter [OF mt] by simp
    have raw: "take (length ((x # xs) @ a # t # z) - length (r @ a # t # z)) ((x # xs) @ a # t # z)
        = take (length (x # xs) - length r) (x # xs)"
      by (rule take_matched_append [OF l])
    show ?thesis
      unfolding replace_context_match [OF mt'] raw replace_context_match [OF mt]
      using 2(2) [OF mt refl] by simp
  qed
qed

lemma match_context_At:
  "match_context s = Some (ds, r) \<Longrightarrow>
   \<exists>a t z. s = a # t # z \<and> ci_eq CHR ''A'' a \<and> ci_eq CHR ''t'' t"
  using match_context_SomeD(1) is_ref_head_At by (metis append_Cons)
lemma findBlanks_index_strict: "sorted_wrt (<) (map index (findBlanks p s))"
proof (induction p s rule: findBlanks.induct)
  case (1 pos)
  show ?case by simp
next
  case (2 pos c cs)
  show ?case
  proof (cases "match_blank (c # cs)")
    case None
    with 2 show ?thesis by simp
  next
    case (Some ds)
    have "\<forall>b \<in> set (findBlanks (pos + (12 + length ds)) (drop (12 + length ds) (c # cs))).
        pos < index b"
      using findBlanks_index_ge by fastforce
    with 2(2) [OF Some] Some show ?thesis by simp
  qed
qed

lemma build_idMap_pos: "build_idMap bs d = Some v \<Longrightarrow> v \<noteq> 0"
proof (induction bs rule: rev_induct)
  case Nil
  then show ?case by (simp add: build_idMap_def)
next
  case (snoc b bs)
  then show ?case by (auto simp: build_idMap_snoc split: if_splits)
qed

lemma canonical_idMap:
  "canonical (build_idMap bs) n = (case build_idMap bs n of Some c \<Rightarrow> c | None \<Rightarrow> n)"
  by (auto simp: canonical_def dest: build_idMap_pos split: option.splits)

lemma match_context_suffix:
  "match_context s = Some (ds, r) \<Longrightarrow> take (length s - length r) s @ r = s"
proof -
  assume "match_context s = Some (ds, r)"
  from match_context_SomeD(1) [OF this] obtain h where "s = h @ ds @ r" by blast
  then show ?thesis by simp
qed

lemma replace_context_unmapped:
  "\<forall>n \<in> set (at_refs s). m n = None \<Longrightarrow> replace_context m s = s"
proof (induction m s rule: replace_context.induct)
  case (1 m)
  show ?case by simp
next
  case (2 m x xs)
  show ?case
  proof (cases "match_context (x # xs)")
    case None
    with 2(1) [OF None] 2(3) show ?thesis
      by (simp add: replace_context_nomatch at_refs_nomatch del: replace_context.simps at_refs.simps)
  next
    case (Some p)
    obtain ds r where p: "p = (ds, r)" by (cases p)
    note mt = Some [unfolded p]
    from 2(3) have u: "m (parseInt ds) = None" and rest: "\<forall>n \<in> set (at_refs r). m n = None"
      unfolding at_refs_match [OF mt] by simp_all
    from 2(2) [OF mt refl rest] show ?thesis
      unfolding replace_context_match [OF mt] using u match_context_suffix [OF mt] by simp
  qed
qed

lemma postProcess_context:
  "context_text (postProcess sc) = replace_context (idMap sc) (context_text sc)"
proof (cases "foundBlanks sc = []")
  case True
  then have "idMap sc = Map.empty" by (simp add: idMap_def build_idMap_def)
  then have "replace_context (idMap sc) (context_text sc) = context_text sc"
    using replace_context_unmapped [of "context_text sc" "idMap sc"] by simp
  with True show ?thesis
    by (simp add: postProcess_eq)
next
  case False
  then show ?thesis by (simp add: postProcess_eq)
qed

subsection \<open>The header rewrite\<close>

lemma replace_header_match:
  "match_header d s = Some r \<Longrightarrow>
   replace_header d c s = ''At Blank '' @ show_nat c @ replace_header d c r"
proof (cases s)
  case Nil
  assume "match_header d s = Some r"
  with Nil show ?thesis by (simp add: match_header_def match_at_blank_def ci_prefix_def)
next
  case (Cons x xs)
  assume "match_header d s = Some r"
  then show ?thesis unfolding Cons by simp
qed

lemma replace_header_nomatch:
  "match_header d (x # xs) = None \<Longrightarrow> replace_header d c (x # xs) = x # replace_header d c xs"
  by simp

lemma replace_header_leftmost:
  assumes "\<forall>j < length pre. match_header d (drop j (pre @ s)) = None"
    and "match_header d s = Some r"
  shows "replace_header d c (pre @ s) = pre @ ''At Blank '' @ show_nat c @ replace_header d c r"
  using assms(1)
proof (induction pre)
  case Nil
  show ?case using replace_header_match [OF assms(2)] by simp
next
  case (Cons x pre)
  from Cons.prems [rule_format, of 0] have n: "match_header d (x # pre @ s) = None" by simp
  have "\<forall>j < length pre. match_header d (drop j (pre @ s)) = None"
  proof (intro allI impI)
    fix j assume "j < length pre"
    then show "match_header d (drop j (pre @ s)) = None"
      using Cons.prems [rule_format, of "Suc j"] by simp
  qed
  from Cons.IH [OF this] show ?case
    using replace_header_nomatch [OF n] by simp
qed

lemma replace_header_none:
  "\<forall>j < length s. match_header d (drop j s) = None \<Longrightarrow> replace_header d c s = s"
proof (induction s)
  case Nil
  show ?case by simp
next
  case (Cons x xs)
  from Cons.prems [rule_format, of 0] have n: "match_header d (x # xs) = None" by simp
  have "\<forall>j < length xs. match_header d (drop j xs) = None"
  proof (intro allI impI)
    fix j assume "j < length xs"
    then show "match_header d (drop j xs) = None"
      using Cons.prems [rule_format, of "Suc j"] by simp
  qed
  from Cons.IH [OF this] show ?case
    using replace_header_nomatch [OF n] by simp
qed

subsection \<open>Canonical spelling\<close>

lemma header_canonical_iff:
  "header_canonical d s \<longleftrightarrow>
     (\<forall>j < length s. case match_header d (drop j s) of
          None \<Rightarrow> True
        | Some r \<Rightarrow> drop j s = ''At Blank '' @ show_nat d @ r)"
  by (auto simp: header_canonical_def list_all_iff)

lemma context_canonical_iff:
  "context_canonical m s \<longleftrightarrow>
     (\<forall>j < length s. case match_context (drop j s) of
          None \<Rightarrow> True
        | Some (ds, r) \<Rightarrow>
            (case m (parseInt ds) of
               None \<Rightarrow> True
             | Some newId \<Rightarrow> drop j s = ''At Blank '' @ show_nat newId @ r))"
  by (auto simp: context_canonical_def list_all_iff)

lemma header_canonical_suffix: "header_canonical d (p @ r) \<Longrightarrow> header_canonical d r"
  unfolding header_canonical_iff
proof (intro allI impI)
  fix j
  assume a: "\<forall>j < length (p @ r). case match_header d (drop j (p @ r)) of
          None \<Rightarrow> True
        | Some r' \<Rightarrow> drop j (p @ r) = ''At Blank '' @ show_nat d @ r'"
    and j: "j < length r"
  have "drop (length p + j) (p @ r) = drop j r" by simp
  with a [rule_format, of "length p + j"] j
  show "case match_header d (drop j r) of
          None \<Rightarrow> True
        | Some r' \<Rightarrow> drop j r = ''At Blank '' @ show_nat d @ r'"
    by (auto split: option.splits)
qed

lemma context_canonical_suffix: "context_canonical m (p @ r) \<Longrightarrow> context_canonical m r"
  unfolding context_canonical_iff
proof (intro allI impI)
  fix j
  assume a: "\<forall>j < length (p @ r). case match_context (drop j (p @ r)) of
          None \<Rightarrow> True
        | Some (ds, r') \<Rightarrow>
            (case m (parseInt ds) of
               None \<Rightarrow> True
             | Some newId \<Rightarrow> drop j (p @ r) = ''At Blank '' @ show_nat newId @ r')"
    and j: "j < length r"
  have "drop (length p + j) (p @ r) = drop j r" by simp
  with a [rule_format, of "length p + j"] j
  show "case match_context (drop j r) of
          None \<Rightarrow> True
        | Some (ds, r') \<Rightarrow>
            (case m (parseInt ds) of
               None \<Rightarrow> True
             | Some newId \<Rightarrow> drop j r = ''At Blank '' @ show_nat newId @ r')"
    by (auto split: option.splits prod.splits)
qed

lemma header_canonical_head:
  "header_canonical d (x # xs) \<Longrightarrow> match_header d (x # xs) = Some r \<Longrightarrow>
   x # xs = ''At Blank '' @ show_nat d @ r"
  unfolding header_canonical_iff by (drule spec [of _ 0]) simp

lemma context_canonical_head:
  "context_canonical m (x # xs) \<Longrightarrow> match_context (x # xs) = Some (ds, r) \<Longrightarrow>
   m (parseInt ds) = Some newId \<Longrightarrow> x # xs = ''At Blank '' @ show_nat newId @ r"
  unfolding context_canonical_iff by (drule spec [of _ 0]) simp

lemma replace_header_canonical:
  "c = d \<Longrightarrow> header_canonical d s \<Longrightarrow> replace_header d c s = s"
proof (induction d c s rule: replace_header.induct)
  case (1 d c)
  show ?case by simp
next
  case (2 d c x xs)
  show ?case
  proof (cases "match_header d (x # xs)")
    case None
    have "header_canonical d xs"
      using header_canonical_suffix [of d "[x]" xs] 2(4) by simp
    from 2(1) [OF None 2(3) this] show ?thesis
      using replace_header_nomatch [OF None] by simp
  next
    case (Some r)
    have e: "x # xs = ''At Blank '' @ show_nat d @ r"
      by (rule header_canonical_head [OF 2(4) Some])
    have "header_canonical d r"
      using header_canonical_suffix [of d "''At Blank '' @ show_nat d" r] 2(4) e by simp
    from 2(2) [OF Some 2(3) this] show ?thesis
      unfolding replace_header_match [OF Some] using e 2(3) by simp
  qed
qed

lemma replace_context_canonical:
  "context_canonical m s \<Longrightarrow> replace_context m s = s"
proof (induction m s rule: replace_context.induct)
  case (1 m)
  show ?case by simp
next
  case (2 m x xs)
  show ?case
  proof (cases "match_context (x # xs)")
    case None
    have "context_canonical m xs"
      using context_canonical_suffix [of m "[x]" xs] 2(3) by simp
    from 2(1) [OF None this] show ?thesis
      using replace_context_nomatch [OF None] by simp
  next
    case (Some p)
    obtain ds r where p: "p = (ds, r)" by (cases p)
    note mt = Some [unfolded p]
    have sfx: "take (length (x # xs) - length r) (x # xs) @ r = x # xs"
      by (rule match_context_suffix [OF mt])
    then have "context_canonical m r"
      using context_canonical_suffix [of m "take (length (x # xs) - length r) (x # xs)" r] 2(3)
      by simp
    from 2(2) [OF mt refl this] have ih: "replace_context m r = r" .
    show ?thesis
    proof (cases "m (parseInt ds)")
      case None
      then show ?thesis
        unfolding replace_context_match [OF mt] ih using sfx by simp
    next
      case (Some newId)
      have e: "x # xs = ''At Blank '' @ show_nat newId @ r"
        by (rule context_canonical_head [OF 2(3) mt Some])
      show ?thesis
      proof (cases "newId = 0")
        case True
        then show ?thesis
          unfolding replace_context_match [OF mt] ih using Some sfx by simp
      next
        case False
        then show ?thesis
          unfolding replace_context_match [OF mt] ih using Some e by simp
      qed
    qed
  qed
qed

subsection \<open>Templates that are already canonical\<close>

lemma match_blank_take:
  assumes "match_blank s = Some ds"
  shows "take (12 + length ds) s = ''___BLANK_'' @ ds @ ''___''"
proof -
  let ?M = "''___BLANK_'' @ ds @ ''___''"
  have l: "length ?M = 12 + length ds" by simp
  from match_blank_SomeD(3) [OF assms] have "s = ?M @ drop (12 + length ds) s" by simp
  then have "take (length ?M) s = ?M" by (metis append_eq_conv_conj)
  then show ?thesis unfolding l .
qed

lemma findBlanks_marker_form:
  "b \<in> set (findBlanks p s) \<Longrightarrow>
   \<exists>ds. marker b = ''___BLANK_'' @ ds @ ''___'' \<and> originalId b = parseInt ds"
proof (induction p s rule: findBlanks.induct)
  case (1 pos)
  then show ?case by simp
next
  case (2 pos c cs)
  show ?case
  proof (cases "match_blank (c # cs)")
    case None
    with 2 show ?thesis by simp
  next
    case (Some ds)
    let ?L = "12 + length ds"
    have m: "take ?L (c # cs) = ''___BLANK_'' @ ds @ ''___''"
      by (rule match_blank_take [OF Some])
    from 2(3) consider
      "b = \<lparr>originalId = parseInt ds, index = pos, marker = take ?L (c # cs)\<rparr>"
      | "b \<in> set (findBlanks (pos + ?L) (drop ?L (c # cs)))"
      unfolding findBlanks_match [OF Some] by auto
    then show ?thesis
    proof cases
      case 1
      then show ?thesis using m by simp
    next
      case 2
      then show ?thesis by (rule "2.IH"(2) [OF Some])
    qed
  qed
qed

lemma originalId_of_newMarker:
  assumes "b \<in> set (findBlanks p s)" and "marker b = newMarker i"
  shows "originalId b = i + 1"
proof -
  from findBlanks_marker_form [OF assms(1)] obtain ds where
    m: "marker b = ''___BLANK_'' @ ds @ ''___''" and o: "originalId b = parseInt ds" by blast
  from m assms(2) have "ds = show_nat (i + 1)" by (simp add: newMarker_def)
  with o show ?thesis by (simp add: parseInt_show_nat)
qed

lemma renumber_fixed:
  "map marker (findBlanks p s) = map newMarker [k ..< k + length (findBlanks p s)] \<Longrightarrow>
   renumber k s = s"
proof (induction k s arbitrary: p rule: renumber.induct)
  case (1 k)
  show ?case by simp
next
  case (2 k c cs)
  show ?case
  proof (cases "match_blank (c # cs)")
    case None
    from 2(1) [OF None, of "p + 1"] 2(3) show ?thesis
      unfolding findBlanks_nomatch [OF None] renumber_nomatch [OF None] by simp
  next
    case (Some ds)
    let ?L = "12 + length ds"
    let ?rest = "findBlanks (p + ?L) (drop ?L (c # cs))"
    from 2(3) have "take ?L (c # cs) # map marker ?rest
        = map newMarker [k ..< k + Suc (length ?rest)]"
      unfolding findBlanks_match [OF Some] by simp
    then have h: "take ?L (c # cs) = newMarker k"
      and t: "map marker ?rest = map newMarker [Suc k ..< Suc k + length ?rest]"
      unfolding upt_add_Suc by simp_all
    from 2(2) [OF Some t] have "renumber (Suc k) (drop ?L (c # cs)) = drop ?L (c # cs)" .
    then have "renumber k (c # cs) = take ?L (c # cs) @ drop ?L (c # cs)"
      unfolding renumber_match [OF Some] h by simp
    then show ?thesis by simp
  qed
qed
lemma foundBlanks_postProcess:
  "map originalId (foundBlanks (postProcess sc)) = [1 ..< length (foundBlanks sc) + 1] \<and>
   map marker (foundBlanks (postProcess sc)) = map newMarker [0 ..< length (foundBlanks sc)]"
proof (cases "foundBlanks sc = []")
  case True
  then show ?thesis by (simp add: postProcess_eq)
next
  case False
  then have "codeTemplate (postProcess sc) = renumber 0 (codeTemplate sc)"
    by (simp add: postProcess_eq)
  then show ?thesis
    using findBlanks_renumber [of 0 0 "codeTemplate sc" 0] by (simp add: foundBlanks_eq)
qed

lemma postProcess_steps:
  "foundBlanks sc \<noteq> [] \<Longrightarrow> steps (postProcess sc) = remapSteps (steps sc) (foundBlanks sc)"
  by (simp add: postProcess_eq)

lemma instruction_relocate:
  assumes "1 \<le> originalId b" and "originalId b \<le> length sts"
  shows "instruction (relocate sts i b)
         = replace_header (originalId b) (i + 1) (instruction (sts ! (originalId b - 1)))"
proof -
  from assms have "originalId b - 1 < length sts" by arith
  with assms(1) show ?thesis by (simp add: relocate_def)
qed

lemma step_id_relocate: "step_id (relocate sts i b) = ''step_'' @ show_nat (i + 1)"
  by (simp add: relocate_def sentinel_def)

lemma instruction_relocate_missing:
  "originalId b = 0 \<or> length sts < originalId b \<Longrightarrow>
   instruction (relocate sts i b) = ''Missing step definition.''"
  by (auto simp: relocate_def sentinel_def)

lemma relocate_canonical:
  assumes "originalId b = i + 1" and "i < length sts"
    and "step_id (sts ! i) = ''step_'' @ show_nat (i + 1)"
    and "header_canonical (i + 1) (instruction (sts ! i))"
  shows "relocate sts i b = sts ! i"
proof -
  have "replace_header (i + 1) (i + 1) (instruction (sts ! i)) = instruction (sts ! i)"
    by (rule replace_header_canonical [OF refl assms(4)])
  then show ?thesis
    using assms(1-3) by (simp add: relocate_def)
qed

lemma foundBlanks_canonical_ids:
  assumes "map marker (foundBlanks sc) = map newMarker [0 ..< length (foundBlanks sc)]"
    and "i < length (foundBlanks sc)"
  shows "originalId (foundBlanks sc ! i) = i + 1"
proof -
  have "map marker (foundBlanks sc) ! i = map newMarker [0 ..< length (foundBlanks sc)] ! i"
    using assms(1) by simp
  then have m: "marker (foundBlanks sc ! i) = newMarker i"
    using assms(2) by simp
  have "foundBlanks sc ! i \<in> set (findBlanks 0 (codeTemplate sc))"
    using assms(2) unfolding foundBlanks_eq by simp
  from originalId_of_newMarker [OF this m] show ?thesis .
qed

lemma postProcess_twice_steps:
  "length (steps (postProcess (postProcess sc))) = length (steps (postProcess sc)) \<and>
   (\<forall>i < length (steps (postProcess sc)).
      steps (postProcess (postProcess sc)) ! i =
        (steps (postProcess sc) ! i)
          \<lparr>instruction := instruction (steps (postProcess (postProcess sc)) ! i)\<rparr>)"
proof (cases "foundBlanks sc = []")
  case True
  then have "postProcess sc = sc" by (simp add: postProcess_eq)
  then show ?thesis by simp
next
  case False
  let ?sc' = "postProcess sc"
  let ?n = "length (foundBlanks sc)"
  have l: "length (steps ?sc') = ?n"
    unfolding postProcess_steps [OF False] by (rule length_remapSteps)
  have ids: "map originalId (foundBlanks ?sc') = [1 ..< ?n + 1]"
    using foundBlanks_postProcess [of sc] by blast
  have "length (foundBlanks ?sc') = length (map originalId (foundBlanks ?sc'))" by simp
  also have "\<dots> = length [1 ..< ?n + 1]" unfolding ids ..
  also have "\<dots> = ?n" by (simp del: upt_Suc)
  finally have l': "length (foundBlanks ?sc') = ?n" .
  with False have ne': "foundBlanks ?sc' \<noteq> []" by auto
  have l2: "length (steps (postProcess ?sc')) = ?n"
    unfolding postProcess_steps [OF ne'] using l' by (simp add: length_remapSteps)
  have "\<forall>i < ?n. steps (postProcess ?sc') ! i =
      (steps ?sc' ! i)\<lparr>instruction := instruction (steps (postProcess ?sc') ! i)\<rparr>"
  proof (intro allI impI)
    fix i assume i: "i < ?n"
    have "map originalId (foundBlanks ?sc') ! i = [1 ..< ?n + 1] ! i" unfolding ids ..
    moreover have "[1 ..< ?n + 1] ! i = i + 1" using i by (simp del: upt_Suc)
    moreover have "map originalId (foundBlanks ?sc') ! i = originalId (foundBlanks ?sc' ! i)"
      using i l' by simp
    ultimately have o: "originalId (foundBlanks ?sc' ! i) = i + 1" by simp
    have sid: "step_id (steps ?sc' ! i) = ''step_'' @ show_nat (i + 1)"
      unfolding postProcess_steps [OF False] nth_remapSteps [OF i] by (rule step_id_relocate)
    have "steps (postProcess ?sc') ! i = relocate (steps ?sc') i (foundBlanks ?sc' ! i)"
      unfolding postProcess_steps [OF ne'] using i l' by (simp add: nth_remapSteps)
    then show "steps (postProcess ?sc') ! i =
      (steps ?sc' ! i)\<lparr>instruction := instruction (steps (postProcess ?sc') ! i)\<rparr>"
      using o i l sid by (simp add: relocate_def)
  qed
  with l l2 show ?thesis by simp
qed
lemma postProcess_template: "codeTemplate (postProcess sc) = renumber 0 (codeTemplate sc)"
proof (cases "foundBlanks sc = []")
  case True
  then have "renumber 0 (codeTemplate sc) = codeTemplate sc"
    using renumber_fixed [of 0 "codeTemplate sc" 0] by (simp add: foundBlanks_eq)
  with True show ?thesis by (simp add: postProcess_eq)
next
  case False
  then show ?thesis by (simp add: postProcess_eq)
qed

lemma pieces_match:
  "match_context s = Some (ds, r) \<Longrightarrow>
   pieces s = Reference (take (length s - length r) s) ds # pieces r"
proof (cases s)
  case Nil
  assume "match_context s = Some (ds, r)"
  with Nil show ?thesis by (simp add: match_context_Nil)
next
  case (Cons x xs)
  assume "match_context s = Some (ds, r)"
  then show ?thesis unfolding Cons by simp
qed

lemma pieces_nomatch: "match_context (x # xs) = None \<Longrightarrow> pieces (x # xs) = Plain x # pieces xs"
  by simp

lemma render_pieces: "concat (map render (pieces s)) = s"
proof (induction s rule: pieces.induct)
  case 1
  show ?case by simp
next
  case (2 x xs)
  show ?case
  proof (cases "match_context (x # xs)")
    case None
    with 2(1) [OF None] show ?thesis by simp
  next
    case (Some p)
    obtain ds r where p: "p = (ds, r)" by (cases p)
    note mt = Some [unfolded p]
    from 2(2) [OF mt refl] show ?thesis
      unfolding pieces_match [OF mt] using match_context_suffix [OF mt] by simp
  qed
qed

lemma replace_context_pieces:
  "replace_context m s = concat (map (\<lambda>p. render (respell m p)) (pieces s))"
proof (induction m s rule: replace_context.induct)
  case (1 m)
  show ?case by simp
next
  case (2 m x xs)
  show ?case
  proof (cases "match_context (x # xs)")
    case None
    with 2(1) [OF None] show ?thesis
      unfolding replace_context_nomatch [OF None] pieces_nomatch [OF None] by simp
  next
    case (Some p)
    obtain ds r where p: "p = (ds, r)" by (cases p)
    note mt = Some [unfolded p]
    from 2(2) [OF mt refl] show ?thesis
      unfolding replace_context_match [OF mt] pieces_match [OF mt]
      by (simp split: option.splits)
  qed
qed

lemma take_length_append: "take (length (p @ q) - length q) (p @ q) = p"
  by simp

lemma pieces_replace_context: "pieces (replace_context m s) = map (respell m) (pieces s)"
proof (induction m s rule: replace_context.induct)
  case (1 m)
  show ?case by simp
next
  case (2 m x xs)
  show ?case
  proof (cases "match_context (x # xs)")
    case None
    show ?thesis
      unfolding replace_context_nomatch [OF None] pieces_nomatch [OF None]
        pieces_nomatch [OF match_context_None_replace [OF None]]
      using 2(1) [OF None] by simp
  next
    case (Some p)
    obtain ds r where p: "p = (ds, r)" by (cases p)
    note mt = Some [unfolded p]
    let ?Y = "replace_context m r"
    from match_context_SomeD [OF mt] obtain h where h: "is_ref_head h" "x # xs = h @ ds @ r"
      and ds: "ds \<noteq> []" "\<forall>c \<in> set ds. is_digit c" by blast
    have raw: "take (length (x # xs) - length r) (x # xs) = h @ ds"
      unfolding h(2) by simp
    have nd: "?Y = [] \<or> \<not> is_digit (hd ?Y)"
      by (rule replace_context_no_digit [OF match_context_SomeD(4) [OF mt]])
    have ih: "pieces ?Y = map (respell m) (pieces r)" by (rule 2(2) [OF mt refl])
    show ?thesis
    proof (cases "\<exists>newId. m (parseInt ds) = Some newId \<and> newId \<noteq> 0")
      case True
      then obtain newId where n: "m (parseInt ds) = Some newId" "newId \<noteq> 0" by blast
      let ?X = "''At Blank '' @ show_nat newId"
      have o: "replace_context m (x # xs) = ?X @ ?Y"
        unfolding replace_context_match [OF mt] using n by simp
      have "match_context (''At Blank '' @ show_nat newId @ ?Y) = Some (show_nat newId, ?Y)"
        by (rule match_context_of_head [OF is_ref_head_At_Blank show_nat_nonempty show_nat_digits nd])
      then have m': "match_context (?X @ ?Y) = Some (show_nat newId, ?Y)" by simp
      have t: "take (length (?X @ ?Y) - length ?Y) (?X @ ?Y) = ?X"
        by (rule take_length_append)
      show ?thesis
        unfolding o pieces_match [OF m'] t pieces_match [OF mt] ih using n by simp
    next
      case False
      have o: "replace_context m (x # xs) = (h @ ds) @ ?Y"
        unfolding replace_context_match [OF mt] raw using False by (auto split: option.splits)
      have "match_context (h @ ds @ ?Y) = Some (ds, ?Y)"
        by (rule match_context_of_head [OF h(1) ds nd])
      then have m': "match_context ((h @ ds) @ ?Y) = Some (ds, ?Y)" by simp
      have t: "take (length ((h @ ds) @ ?Y) - length ?Y) ((h @ ds) @ ?Y) = h @ ds"
        by (rule take_length_append)
      show ?thesis
        unfolding o pieces_match [OF m'] t pieces_match [OF mt] ih raw
        using False by (auto split: option.splits)
    qed
  qed
qed
lemma own_header_iff:
  "own_header d s \<longleftrightarrow>
     (\<forall>j < length s. case match_context (drop j s) of
          None \<Rightarrow> True
        | Some (ds, r) \<Rightarrow> ds = show_nat d)"
  by (auto simp: own_header_def list_all_iff)

lemma own_header_suffix: "own_header d (p @ r) \<Longrightarrow> own_header d r"
  unfolding own_header_iff
proof (intro allI impI)
  fix j
  assume a: "\<forall>j < length (p @ r). case match_context (drop j (p @ r)) of
          None \<Rightarrow> True
        | Some (ds, r') \<Rightarrow> ds = show_nat d"
    and j: "j < length r"
  have "drop (length p + j) (p @ r) = drop j r" by simp
  with a [rule_format, of "length p + j"] j
  show "case match_context (drop j r) of
          None \<Rightarrow> True
        | Some (ds, r') \<Rightarrow> ds = show_nat d"
    by (auto split: option.splits prod.splits)
qed

lemma own_header_head:
  "own_header d (x # xs) \<Longrightarrow> match_context (x # xs) = Some (ds, r) \<Longrightarrow> ds = show_nat d"
  unfolding own_header_iff by (drule spec [of _ 0]) simp

lemma match_context_at_blank:
  "match_context s = Some (ds, r) \<Longrightarrow> match_at_blank s = Some (ds @ r)"
  by (auto simp: match_context_def Let_def split: option.splits if_splits)

lemma match_header_context:
  assumes "match_header d s = Some r"
  shows "match_context s \<noteq> None"
proof -
  from assms obtain r4 where m: "match_at_blank s = Some r4"
    and p: "take (length (show_nat d)) r4 = show_nat d"
    by (auto simp: match_header_def split: option.splits if_splits)
  from p show_nat_nonempty [of d] obtain c cs where r4: "r4 = c # cs" and "c \<in> set (show_nat d)"
    by (cases r4; cases "show_nat d") auto
  then have "is_digit c" using show_nat_digits by blast
  then have "takeWhile is_digit r4 \<noteq> []" unfolding r4 by simp
  then show ?thesis by (simp add: match_context_def m Let_def)
qed

lemma match_header_of_context:
  assumes "match_context s = Some (show_nat d, r)"
  shows "match_header d s = Some r"
  unfolding match_header_def match_context_at_blank [OF assms] by simp

lemma replace_header_as_context:
  "own_header d s \<Longrightarrow> c \<noteq> 0 \<Longrightarrow>
   replace_header d c s = replace_context (\<lambda>n. if n = d then Some c else None) s"
proof (induction d c s rule: replace_header.induct)
  case (1 d c)
  show ?case by simp
next
  case (2 d c x xs)
  show ?case
  proof (cases "match_context (x # xs)")
    case None
    then have n: "match_header d (x # xs) = None"
      using match_header_context [of d "x # xs"] by (cases "match_header d (x # xs)") auto
    have "own_header d xs"
      using own_header_suffix [of d "[x]" xs] 2(3) by simp
    from 2(1) [OF n this 2(4)] show ?thesis
      unfolding replace_header_nomatch [OF n] replace_context_nomatch [OF None] by simp
  next
    case (Some p)
    obtain ds r where p: "p = (ds, r)" by (cases p)
    note mt = Some [unfolded p]
    have ds: "ds = show_nat d" by (rule own_header_head [OF 2(3) mt])
    have mh: "match_header d (x # xs) = Some r"
      by (rule match_header_of_context [OF mt [unfolded ds]])
    have "own_header d r"
      using own_header_suffix [of d "take (length (x # xs) - length r) (x # xs)" r]
        2(3) match_context_suffix [OF mt] by simp
    from 2(2) [OF mh this 2(4)] show ?thesis
      unfolding replace_header_match [OF mh] replace_context_match [OF mt]
      using 2(4) by (simp add: ds parseInt_show_nat)
  qed
qed

lemma own_header_pieces:
  "own_header d s \<Longrightarrow> map (respell (\<lambda>n. if n = d then Some c else None)) (pieces s)
     = (if c = 0 then pieces s else map (renamed c) (pieces s))"
proof (induction s rule: pieces.induct)
  case 1
  show ?case by simp
next
  case (2 x xs)
  show ?case
  proof (cases "match_context (x # xs)")
    case None
    have "own_header d xs"
      using own_header_suffix [of d "[x]" xs] 2(3) by simp
    from 2(1) [OF None this] show ?thesis
      unfolding pieces_nomatch [OF None] by simp
  next
    case (Some p)
    obtain ds r where p: "p = (ds, r)" by (cases p)
    note mt = Some [unfolded p]
    have ds: "ds = show_nat d" by (rule own_header_head [OF 2(3) mt])
    have "own_header d r"
      using own_header_suffix [of d "take (length (x # xs) - length r) (x # xs)" r]
        2(3) match_context_suffix [OF mt] by simp
    from 2(2) [OF mt refl this] show ?thesis
      unfolding pieces_match [OF mt] by (simp add: ds parseInt_show_nat)
  qed
qed

lemma pieces_replace_header:
  assumes "own_header d s" and "c \<noteq> 0"
  shows "pieces (replace_header d c s) = map (renamed c) (pieces s)"
  unfolding replace_header_as_context [OF assms] pieces_replace_context
  using own_header_pieces [OF assms(1), of c] assms(2) by simp

lemma expectedAnswer_relocate:
  assumes "1 \<le> originalId b" and "originalId b \<le> length sts"
  shows "expectedAnswer (relocate sts i b) = expectedAnswer (sts ! (originalId b - 1)) \<and>
         outputSimulation (relocate sts i b) = outputSimulation (sts ! (originalId b - 1))"
proof -
  from assms have "originalId b - 1 < length sts" by arith
  with assms(1) show ?thesis by (simp add: relocate_def)
qed

lemma relocate_missing:
  "originalId b = 0 \<or> length sts < originalId b \<Longrightarrow> relocate sts i b = sentinel i"
  by (auto simp: relocate_def)

section \<open>The invariant of the assembled scenario\<close>

text \<open>
  C1 as stated fails in its last part, in the context and in the instructions. In the
  specification's own scenario the \<open>Blank 1\<close> and \<open>Blank 2\<close> of the context have no \<open>At\<close>
  before them and are not rewritten: read as the specification reads them, the references
  still carry the declared numbers 1 and 2 where the canonical numbers are 2 and 1. In
  \<open>example_cross\<close> the step declared for blank 1 is relocated to canonical index 2; its own
  header becomes \<open>At Blank 2\<close>, and its reference to the other blank, \<open>At Blank 2\<close>, whose
  canonical index is now 1, stays, because the header pattern is built from the declared
  index of the relocated step alone.
\<close>

theorem assembled_references_counterexample:
  "spec_blank_refs (context_text example_swap) = [1, 2] \<and>
   map (canonical (idMap example_swap)) [1, 2] = [2, 1] \<and>
   spec_blank_refs (context_text (postProcess example_swap)) = [1, 2] \<and>
   spec_blank_refs (context_text (postProcess example_swap))
     \<noteq> map (canonical (idMap example_swap)) (spec_blank_refs (context_text example_swap)) \<and>
   originalId (foundBlanks example_cross ! 1) = 1 \<and>
   instruction (steps example_cross ! 0) = ''At Blank 1: runs after At Blank 2'' \<and>
   instruction (steps (postProcess example_cross) ! 1) = ''At Blank 2: runs after At Blank 2'' \<and>
   spec_blank_refs (instruction (steps (postProcess example_cross) ! 1))
     \<noteq> map (canonical (idMap example_cross))
           (spec_blank_refs (instruction (steps example_cross ! 0)))"
  by code_simp

text \<open>
  C1, amended. For a scenario with at least one marker, all declared indices below
  \<open>2^53\<close>: the declared indices of the markers of the assembled template, read left to
  right, are 1, 2, ..., \<open>totalBlanks\<close>, at strictly ascending offsets; the assembled step
  list has \<open>totalBlanks\<close> entries. The entry at position \<open>i\<close> is identified as
  \<open>step_<i + 1>\<close>; where the source has a step for the declared index of marker \<open>i + 1\<close>, the
  entry has the expected answer and the output simulation of that step, and, when every
  reference of the form \<open>At Blank <number>\<close> in the instruction of that step is written with
  the declared index itself, the instruction of the entry is that instruction with every
  such reference spelled \<open>At Blank <i + 1>\<close> and every other character kept; where the
  source has no such step the entry is the sentinel. In the context, the matches of
  \<open>At Blank <number>\<close> and the characters outside them are, piece for piece, those of the
  original context, a match whose number is a declared index being spelled \<open>At Blank\<close>
  followed by the canonical index, so that the numbers of the matches of the assembled
  context are the canonical ones; a \<open>Blank <number>\<close> with no \<open>At\<close> before it is made of
  characters outside the matches and is kept.
\<close>

theorem assembled_invariant:
  assumes "1 \<le> length (foundBlanks sc)" and "exact_indices sc"
  shows "map originalId (foundBlanks (postProcess sc)) = [1 ..< length (foundBlanks sc) + 1] \<and>
    sorted_wrt (<) (map index (foundBlanks (postProcess sc))) \<and>
    length (steps (postProcess sc)) = length (foundBlanks sc) \<and>
    (\<forall>i < length (foundBlanks sc).
       step_id (steps (postProcess sc) ! i) = ''step_'' @ show_nat (i + 1) \<and>
       (1 \<le> originalId (foundBlanks sc ! i) \<and> originalId (foundBlanks sc ! i) \<le> length (steps sc) \<longrightarrow>
          expectedAnswer (steps (postProcess sc) ! i)
            = expectedAnswer (steps sc ! (originalId (foundBlanks sc ! i) - 1)) \<and>
          outputSimulation (steps (postProcess sc) ! i)
            = outputSimulation (steps sc ! (originalId (foundBlanks sc ! i) - 1)) \<and>
          (own_header (originalId (foundBlanks sc ! i))
               (instruction (steps sc ! (originalId (foundBlanks sc ! i) - 1))) \<longrightarrow>
             pieces (instruction (steps (postProcess sc) ! i))
               = map (renamed (i + 1))
                   (pieces (instruction (steps sc ! (originalId (foundBlanks sc ! i) - 1)))))) \<and>
       (originalId (foundBlanks sc ! i) = 0 \<or> length (steps sc) < originalId (foundBlanks sc ! i) \<longrightarrow>
          steps (postProcess sc) ! i =
            \<lparr>step_id = ''step_'' @ show_nat (i + 1), instruction = ''Missing step definition.'',
             expectedAnswer = ''???'', outputSimulation = []\<rparr>)) \<and>
    concat (map render (pieces (context_text sc))) = context_text sc \<and>
    pieces (context_text (postProcess sc)) = map (respell (idMap sc)) (pieces (context_text sc)) \<and>
    at_refs (context_text (postProcess sc))
      = map (\<lambda>n. case idMap sc n of Some newId \<Rightarrow> newId | None \<Rightarrow> n) (at_refs (context_text sc))"
proof -
  from assms(1) have ne: "foundBlanks sc \<noteq> []" by auto
  have a: "map originalId (foundBlanks (postProcess sc)) = [1 ..< length (foundBlanks sc) + 1]"
    using foundBlanks_postProcess [of sc] by simp
  have b: "sorted_wrt (<) (map index (foundBlanks (postProcess sc)))"
    unfolding foundBlanks_eq by (rule findBlanks_index_strict)
  have c: "length (steps (postProcess sc)) = length (foundBlanks sc)"
    unfolding postProcess_steps [OF ne] by (rule length_remapSteps)
  have R: "steps (postProcess sc) ! i = relocate (steps sc) i (foundBlanks sc ! i)"
    if "i < length (foundBlanks sc)" for i
    unfolding postProcess_steps [OF ne] by (rule nth_remapSteps [OF that])
  have d: "\<forall>i < length (foundBlanks sc).
       step_id (steps (postProcess sc) ! i) = ''step_'' @ show_nat (i + 1) \<and>
       (1 \<le> originalId (foundBlanks sc ! i) \<and> originalId (foundBlanks sc ! i) \<le> length (steps sc) \<longrightarrow>
          expectedAnswer (steps (postProcess sc) ! i)
            = expectedAnswer (steps sc ! (originalId (foundBlanks sc ! i) - 1)) \<and>
          outputSimulation (steps (postProcess sc) ! i)
            = outputSimulation (steps sc ! (originalId (foundBlanks sc ! i) - 1)) \<and>
          (own_header (originalId (foundBlanks sc ! i))
               (instruction (steps sc ! (originalId (foundBlanks sc ! i) - 1))) \<longrightarrow>
             pieces (instruction (steps (postProcess sc) ! i))
               = map (renamed (i + 1))
                   (pieces (instruction (steps sc ! (originalId (foundBlanks sc ! i) - 1)))))) \<and>
       (originalId (foundBlanks sc ! i) = 0 \<or> length (steps sc) < originalId (foundBlanks sc ! i) \<longrightarrow>
          steps (postProcess sc) ! i =
            \<lparr>step_id = ''step_'' @ show_nat (i + 1), instruction = ''Missing step definition.'',
             expectedAnswer = ''???'', outputSimulation = []\<rparr>)"
  proof (intro allI impI conjI)
    fix i assume i: "i < length (foundBlanks sc)"
    show "step_id (steps (postProcess sc) ! i) = ''step_'' @ show_nat (i + 1)"
      unfolding R [OF i] by (rule step_id_relocate)
  next
    fix i assume i: "i < length (foundBlanks sc)"
      and h: "1 \<le> originalId (foundBlanks sc ! i) \<and>
        originalId (foundBlanks sc ! i) \<le> length (steps sc)"
    from h have h1: "1 \<le> originalId (foundBlanks sc ! i)"
      and h2: "originalId (foundBlanks sc ! i) \<le> length (steps sc)" by simp_all
    show "expectedAnswer (steps (postProcess sc) ! i)
            = expectedAnswer (steps sc ! (originalId (foundBlanks sc ! i) - 1))"
      unfolding R [OF i] using expectedAnswer_relocate [OF h1 h2] by blast
  next
    fix i assume i: "i < length (foundBlanks sc)"
      and h: "1 \<le> originalId (foundBlanks sc ! i) \<and>
        originalId (foundBlanks sc ! i) \<le> length (steps sc)"
    from h have h1: "1 \<le> originalId (foundBlanks sc ! i)"
      and h2: "originalId (foundBlanks sc ! i) \<le> length (steps sc)" by simp_all
    show "outputSimulation (steps (postProcess sc) ! i)
            = outputSimulation (steps sc ! (originalId (foundBlanks sc ! i) - 1))"
      unfolding R [OF i] using expectedAnswer_relocate [OF h1 h2] by blast
  next
    fix i assume i: "i < length (foundBlanks sc)"
      and h: "1 \<le> originalId (foundBlanks sc ! i) \<and>
        originalId (foundBlanks sc ! i) \<le> length (steps sc)"
      and o: "own_header (originalId (foundBlanks sc ! i))
               (instruction (steps sc ! (originalId (foundBlanks sc ! i) - 1)))"
    from h have h1: "1 \<le> originalId (foundBlanks sc ! i)"
      and h2: "originalId (foundBlanks sc ! i) \<le> length (steps sc)" by simp_all
    have "i + 1 \<noteq> 0" by simp
    from pieces_replace_header [OF o this]
    show "pieces (instruction (steps (postProcess sc) ! i))
               = map (renamed (i + 1))
                   (pieces (instruction (steps sc ! (originalId (foundBlanks sc ! i) - 1))))"
      unfolding R [OF i] instruction_relocate [OF h1 h2] .
  next
    fix i assume i: "i < length (foundBlanks sc)"
      and m: "originalId (foundBlanks sc ! i) = 0 \<or> length (steps sc) < originalId (foundBlanks sc ! i)"
    from relocate_missing [OF m]
    show "steps (postProcess sc) ! i =
            \<lparr>step_id = ''step_'' @ show_nat (i + 1), instruction = ''Missing step definition.'',
             expectedAnswer = ''???'', outputSimulation = []\<rparr>"
      unfolding R [OF i] by (simp add: sentinel_def)
  qed
  have e: "concat (map render (pieces (context_text sc))) = context_text sc"
    by (rule render_pieces)
  have f: "pieces (context_text (postProcess sc)) = map (respell (idMap sc)) (pieces (context_text sc))"
    unfolding postProcess_context by (rule pieces_replace_context)
  have "canonical (idMap sc) = (\<lambda>n. case idMap sc n of Some newId \<Rightarrow> newId | None \<Rightarrow> n)"
    unfolding idMap_def by (rule ext) (rule canonical_idMap)
  then have g: "at_refs (context_text (postProcess sc))
      = map (\<lambda>n. case idMap sc n of Some newId \<Rightarrow> newId | None \<Rightarrow> n) (at_refs (context_text sc))"
    using at_refs_replace_context [of "idMap sc" "context_text sc"]
    by (simp add: postProcess_context)
  from a b c d e f g show ?thesis by blast
qed

theorem assembled_invariant_witness:
  "1 \<le> length (foundBlanks example_swap_at) \<and> exact_indices example_swap_at \<and>
   map originalId (foundBlanks example_swap_at) = [2, 1] \<and>
   map originalId (foundBlanks (postProcess example_swap_at)) = [1, 2] \<and>
   length (steps (postProcess example_swap_at)) = 2 \<and>
   step_id (steps (postProcess example_swap_at) ! 0) = ''step_1'' \<and>
   expectedAnswer (steps (postProcess example_swap_at) ! 0) = ''a2'' \<and>
   own_header 2 ''At Blank 2: second'' \<and>
   instruction (steps (postProcess example_swap_at) ! 0) = ''At Blank 1: second'' \<and>
   context_text (postProcess example_swap_at) = ''See At Blank 2 and At Blank 1.''"
proof -
  let ?sc = example_swap_at
  let ?out = "postProcess example_swap_at"
  have h: "1 \<le> length (foundBlanks ?sc)" by code_simp
  have f: "map originalId (foundBlanks ?sc) = [2, 1]" by code_simp
  have x: "exact_indices ?sc" unfolding exact_indices_def f by simp
  have n: "length (foundBlanks ?sc) = 2" by code_simp
  have i: "0 < length (foundBlanks ?sc)" by code_simp
  have u: "[1 ..< length (foundBlanks ?sc) + 1] = [1, 2]" by code_simp
  have e: "''step_'' @ show_nat (0 + 1) = ''step_1''" by code_simp
  have d: "1 \<le> originalId (foundBlanks ?sc ! 0) \<and> originalId (foundBlanks ?sc ! 0) \<le> length (steps ?sc)"
    by code_simp
  have a2: "expectedAnswer (steps ?sc ! (originalId (foundBlanks ?sc ! 0) - 1)) = ''a2''"
    by code_simp
  have o: "own_header (originalId (foundBlanks ?sc ! 0))
      (instruction (steps ?sc ! (originalId (foundBlanks ?sc ! 0) - 1)))" by code_simp
  have o': "own_header 2 ''At Blank 2: second''" by code_simp
  have g: "concat (map render (map (renamed (0 + 1))
      (pieces (instruction (steps ?sc ! (originalId (foundBlanks ?sc ! 0) - 1))))))
      = ''At Blank 1: second''" by code_simp
  have k: "concat (map render (map (respell (idMap ?sc)) (pieces (context_text ?sc))))
      = ''See At Blank 2 and At Blank 1.''" by code_simp
  note T = assembled_invariant [OF h x]
  from T have a: "map originalId (foundBlanks ?out) = [1, 2]"
    unfolding u by (rule conjunct1)
  from T have l: "length (steps ?out) = 2"
    unfolding n by blast
  from T i have s: "step_id (steps ?out ! 0) = ''step_1''"
    unfolding e [symmetric] by blast
  from T i d have t: "expectedAnswer (steps ?out ! 0) = ''a2''"
    unfolding a2 [symmetric] by blast
  from T i d o have "pieces (instruction (steps ?out ! 0))
      = map (renamed (0 + 1)) (pieces (instruction (steps ?sc ! (originalId (foundBlanks ?sc ! 0) - 1))))"
    by blast
  then have "concat (map render (pieces (instruction (steps ?out ! 0)))) = ''At Blank 1: second''"
    unfolding g [symmetric] by (rule arg_cong)
  then have v: "instruction (steps ?out ! 0) = ''At Blank 1: second''"
    unfolding render_pieces .
  from T have "pieces (context_text ?out) = map (respell (idMap ?sc)) (pieces (context_text ?sc))"
    by blast
  then have "concat (map render (pieces (context_text ?out))) = ''See At Blank 2 and At Blank 1.''"
    unfolding k [symmetric] by (rule arg_cong)
  then have w: "context_text ?out = ''See At Blank 2 and At Blank 1.''"
    unfolding render_pieces .
  from h x f a l s t o' v w show ?thesis by blast
qed

section \<open>Relocation of the steps\<close>

text \<open>
  C2. For a scenario with at least one marker, the remapped step list has one entry per
  marker, and the entry at the position of a marker (canonical index minus one) is the
  step originally at the marker's declared index minus one, with its identifier rewritten
  to \<open>step_<canonical index>\<close> (and its instruction passed through the header rewrite).
\<close>

theorem steps_relocated:
  assumes "1 \<le> length (foundBlanks sc)"
  shows "length (steps (postProcess sc)) = length (foundBlanks sc) \<and>
    (\<forall>i < length (foundBlanks sc).
       1 \<le> originalId (foundBlanks sc ! i) \<and> originalId (foundBlanks sc ! i) \<le> length (steps sc) \<longrightarrow>
       steps (postProcess sc) ! i =
         (steps sc ! (originalId (foundBlanks sc ! i) - 1))
           \<lparr>step_id := ''step_'' @ show_nat (i + 1),
            instruction := replace_header (originalId (foundBlanks sc ! i)) (i + 1)
               (instruction (steps sc ! (originalId (foundBlanks sc ! i) - 1)))\<rparr>)"
proof -
  from assms have ne: "foundBlanks sc \<noteq> []" by auto
  show ?thesis
    unfolding postProcess_steps [OF ne]
    by (auto simp: length_remapSteps nth_remapSteps relocate_def)
qed

theorem steps_relocated_witness:
  "1 \<le> length (foundBlanks example_312) \<and>
   map originalId (foundBlanks example_312) = [3, 1, 2] \<and>
   length (steps (postProcess example_312)) = 3 \<and>
   steps (postProcess example_312) ! 0 = step_of ''step_1'' ''three'' ''a3'' \<and>
   steps (postProcess example_312) ! 1 = step_of ''step_2'' ''one'' ''a1'' \<and>
   steps (postProcess example_312) ! 2 = step_of ''step_3'' ''two'' ''a2''"
proof -
  let ?bs = "foundBlanks example_312" and ?sts = "steps example_312"
  have h: "1 \<le> length ?bs" by code_simp
  have f: "map originalId ?bs = [3, 1, 2]" by code_simp
  have n: "length ?bs = 3" by code_simp
  have i: "0 < length ?bs" "1 < length ?bs" "2 < length ?bs" by code_simp+
  have d0: "1 \<le> originalId (?bs ! 0) \<and> originalId (?bs ! 0) \<le> length ?sts" by code_simp
  have d1: "1 \<le> originalId (?bs ! 1) \<and> originalId (?bs ! 1) \<le> length ?sts" by code_simp
  have d2: "1 \<le> originalId (?bs ! 2) \<and> originalId (?bs ! 2) \<le> length ?sts" by code_simp
  have e0: "(?sts ! (originalId (?bs ! 0) - 1))
      \<lparr>step_id := ''step_'' @ show_nat (0 + 1),
       instruction := replace_header (originalId (?bs ! 0)) (0 + 1)
         (instruction (?sts ! (originalId (?bs ! 0) - 1)))\<rparr>
      = step_of ''step_1'' ''three'' ''a3''" by code_simp
  have e1: "(?sts ! (originalId (?bs ! 1) - 1))
      \<lparr>step_id := ''step_'' @ show_nat (1 + 1),
       instruction := replace_header (originalId (?bs ! 1)) (1 + 1)
         (instruction (?sts ! (originalId (?bs ! 1) - 1)))\<rparr>
      = step_of ''step_2'' ''one'' ''a1''" by code_simp
  have e2: "(?sts ! (originalId (?bs ! 2) - 1))
      \<lparr>step_id := ''step_'' @ show_nat (2 + 1),
       instruction := replace_header (originalId (?bs ! 2)) (2 + 1)
         (instruction (?sts ! (originalId (?bs ! 2) - 1)))\<rparr>
      = step_of ''step_3'' ''two'' ''a2''" by code_simp
  note T = steps_relocated [OF h]
  from T have l: "length (steps (postProcess example_312)) = 3"
    unfolding n by (rule conjunct1)
  from T i(1) d0 have a: "steps (postProcess example_312) ! 0 = step_of ''step_1'' ''three'' ''a3''"
    unfolding e0 [symmetric] by blast
  from T i(2) d1 have b: "steps (postProcess example_312) ! 1 = step_of ''step_2'' ''one'' ''a1''"
    unfolding e1 [symmetric] by blast
  from T i(3) d2 have c: "steps (postProcess example_312) ! 2 = step_of ''step_3'' ''two'' ''a2''"
    unfolding e2 [symmetric] by blast
  from h f l a b c show ?thesis by blast
qed

section \<open>References in the context\<close>

text \<open>
  C3 as stated fails: the context pattern of the code requires \<open>At\<close> before \<open>Blank\<close>. On
  the specification's own scenario both 1 and 2 are keys of \<open>idMap\<close>, and the context
  \<open>See Blank 1 and Blank 2.\<close> comes back unchanged.
\<close>

theorem context_blank_reference_counterexample:
  "idMap example_swap 1 = Some 2 \<and> idMap example_swap 2 = Some 1 \<and>
   context_text example_swap = ''See Blank 1 and Blank 2.'' \<and>
   context_text (postProcess example_swap) = ''See Blank 1 and Blank 2.'' \<and>
   context_text (postProcess example_swap) \<noteq> ''See Blank 2 and Blank 1.''"
  by code_simp

text \<open>
  C3, amended. With all declared indices below \<open>2^53\<close>: the context is cut, left to right,
  into the matches of \<open>At\s+Blank\s+(\d+)\<close> under the flag \<open>i\<close> and the characters outside
  them. The assembled context is the same sequence of pieces in which every match whose
  number is a key of \<open>idMap\<close> reads \<open>At Blank\<close> followed by the value of the key, and every
  other piece, an unmapped match or a character outside the matches, is the piece of the
  original context; scanning the assembled context gives these pieces again, so the
  numbers of its matches are the canonical values. A
  \<open>Blank <number>\<close> with no \<open>At\<close> before it consists of characters outside the matches
  and is kept. For the template \<open>A ___BLANK_2___ B ___BLANK_1___ C\<close> the context
  \<open>See At Blank 1 and At Blank 2.\<close> becomes \<open>See At Blank 2 and At Blank 1.\<close>
\<close>

theorem context_at_blank_rewritten:
  assumes "exact_indices sc"
  shows "concat (map render (pieces (context_text sc))) = context_text sc \<and>
    context_text (postProcess sc)
      = concat (map (\<lambda>p. render (respell (idMap sc) p)) (pieces (context_text sc))) \<and>
    pieces (context_text (postProcess sc)) = map (respell (idMap sc)) (pieces (context_text sc)) \<and>
    (\<forall>raw ds newId. idMap sc (parseInt ds) = Some newId \<longrightarrow>
       respell (idMap sc) (Reference raw ds)
         = Reference (''At Blank '' @ show_nat newId) (show_nat newId)) \<and>
    (\<forall>raw ds. idMap sc (parseInt ds) = None \<longrightarrow>
       respell (idMap sc) (Reference raw ds) = Reference raw ds) \<and>
    (\<forall>c. respell (idMap sc) (Plain c) = Plain c) \<and>
    at_refs (context_text (postProcess sc))
      = map (\<lambda>n. case idMap sc n of Some newId \<Rightarrow> newId | None \<Rightarrow> n) (at_refs (context_text sc)) \<and>
    context_text (postProcess example_swap_at) = ''See At Blank 2 and At Blank 1.''"
proof -
  have a: "concat (map render (pieces (context_text sc))) = context_text sc"
    by (rule render_pieces)
  have b: "context_text (postProcess sc)
      = concat (map (\<lambda>p. render (respell (idMap sc) p)) (pieces (context_text sc)))"
    unfolding postProcess_context by (rule replace_context_pieces)
  have c: "pieces (context_text (postProcess sc)) = map (respell (idMap sc)) (pieces (context_text sc))"
    unfolding postProcess_context by (rule pieces_replace_context)
  have d: "context_text (postProcess example_swap_at) = ''See At Blank 2 and At Blank 1.''"
    by code_simp
  have e: "\<forall>raw ds newId. idMap sc (parseInt ds) = Some newId \<longrightarrow>
       respell (idMap sc) (Reference raw ds)
         = Reference (''At Blank '' @ show_nat newId) (show_nat newId)"
    by (auto simp: idMap_def dest: build_idMap_pos)
  have f: "\<forall>raw ds. idMap sc (parseInt ds) = None \<longrightarrow>
       respell (idMap sc) (Reference raw ds) = Reference raw ds"
    by simp
  have g: "\<forall>c. respell (idMap sc) (Plain c) = Plain c" by simp
  have "canonical (idMap sc) = (\<lambda>n. case idMap sc n of Some newId \<Rightarrow> newId | None \<Rightarrow> n)"
    unfolding idMap_def by (rule ext) (rule canonical_idMap)
  then have h: "at_refs (context_text (postProcess sc))
     = map (\<lambda>n. case idMap sc n of Some newId \<Rightarrow> newId | None \<Rightarrow> n) (at_refs (context_text sc))"
    using at_refs_replace_context [of "idMap sc" "context_text sc"]
    by (simp add: postProcess_context)
  from a b c d e f g h show ?thesis by blast
qed

theorem context_at_blank_rewritten_witness:
  "exact_indices example_mixed \<and>
   idMap example_mixed 1 = Some 2 \<and> idMap example_mixed 2 = Some 1 \<and>
   idMap example_mixed 7 = None \<and>
   context_text example_mixed = ''See Blank 1, at  blank 2 and At Blank 7.'' \<and>
   context_text (postProcess example_mixed) = ''See Blank 1, At Blank 1 and At Blank 7.''"
proof -
  let ?sc = example_mixed
  have f: "map originalId (foundBlanks ?sc) = [2, 1]" by code_simp
  have x: "exact_indices ?sc" unfolding exact_indices_def f by simp
  have m: "idMap ?sc 1 = Some 2 \<and> idMap ?sc 2 = Some 1 \<and> idMap ?sc 7 = None" by code_simp
  have c: "context_text ?sc = ''See Blank 1, at  blank 2 and At Blank 7.''" by code_simp
  have e: "concat (map (\<lambda>p. render (respell (idMap ?sc) p)) (pieces (context_text ?sc)))
      = ''See Blank 1, At Blank 1 and At Blank 7.''" by code_simp
  from context_at_blank_rewritten [OF x]
  have "context_text (postProcess ?sc)
      = concat (map (\<lambda>p. render (respell (idMap ?sc) p)) (pieces (context_text ?sc)))"
    by blast
  then have "context_text (postProcess ?sc) = ''See Blank 1, At Blank 1 and At Blank 7.''"
    unfolding e .
  with x m c show ?thesis by blast
qed



section \<open>The header of a relocated instruction\<close>

text \<open>
  C4 as stated fails in both directions. In \<open>example_fill\<close> the step relocated from
  declared index 2 to canonical index 1 keeps its \<open>Blank 2\<close>, which has no \<open>At\<close> before it;
  the step relocated from 1 to 2 has its header \<open>at  blank 1\<close> replaced by \<open>At Blank 2\<close>,
  which changes characters outside \<open>blank 1\<close>.
\<close>

theorem instruction_blank_reference_counterexample:
  "map originalId (foundBlanks example_fill) = [2, 1] \<and>
   map instruction (steps example_fill)
     = [''at  blank 1: the host'', ''Fill Blank 2 with the port''] \<and>
   map instruction (steps (postProcess example_fill))
     = [''Fill Blank 2 with the port'', ''At Blank 2: the host''] \<and>
   instruction (steps (postProcess example_fill) ! 0) \<noteq> ''Fill Blank 1 with the port'' \<and>
   instruction (steps (postProcess example_fill) ! 1) \<noteq> ''at  Blank 2: the host''"
  by code_simp

text \<open>
  C4, amended. For a step relocated from declared index \<open>d\<close> to canonical index \<open>i + 1\<close>,
  the declared indices below \<open>2^53\<close>, whose instruction has no match of \<open>At\s+Blank\s+d\<close> directly followed by a further
  digit, the instruction is rewritten at the matches of that pattern under the flag \<open>i\<close>,
  leftmost first: an instruction in which the pattern matches nowhere is unchanged, and
  otherwise the text before the leftmost match is copied, the match is replaced by
  \<open>At Blank <i + 1>\<close>, and the text behind the match is rewritten in the same way. What
  becomes of a match that is followed by a digit (the header of blank 1 inside
  \<open>At Blank 10\<close>) is not part of the statement.
\<close>

theorem instruction_header_rewritten:
  assumes "i < length (foundBlanks sc)" and "d = originalId (foundBlanks sc ! i)"
    and "1 \<le> d" and "d \<le> length (steps sc)"
    and "ins = instruction (steps sc ! (d - 1))"
    and "exact_indices sc" and "header_bounded d ins"
  shows "((\<forall>j < length ins. match_header d (drop j ins) = None) \<longrightarrow>
            instruction (steps (postProcess sc) ! i) = ins) \<and>
         (\<forall>pre s r. ins = pre @ s \<and> (\<forall>j < length pre. match_header d (drop j ins) = None) \<and>
              match_header d s = Some r \<longrightarrow>
            instruction (steps (postProcess sc) ! i)
              = pre @ ''At Blank '' @ show_nat (i + 1) @ replace_header d (i + 1) r)"
proof -
  from assms(1) have ne: "foundBlanks sc \<noteq> []" by auto
  have "steps (postProcess sc) ! i = relocate (steps sc) i (foundBlanks sc ! i)"
    unfolding postProcess_steps [OF ne] by (rule nth_remapSteps [OF assms(1)])
  then have o: "instruction (steps (postProcess sc) ! i) = replace_header d (i + 1) ins"
    using instruction_relocate [of "foundBlanks sc ! i" "steps sc" i] assms(2-5) by simp
  show ?thesis
    unfolding o using replace_header_none [of ins d "i + 1"]
      replace_header_leftmost [of _ d _ _ "i + 1"] by blast
qed

theorem instruction_header_rewritten_witness:
  "exact_indices example_fill \<and> 1 < length (foundBlanks example_fill) \<and>
   originalId (foundBlanks example_fill ! 1) = 1 \<and>
   instruction (steps example_fill ! 0) = [] @ ''at  blank 1: the host'' \<and>
   header_bounded 1 ''at  blank 1: the host'' \<and>
   match_header 1 ''at  blank 1: the host'' = Some '': the host'' \<and>
   instruction (steps (postProcess example_fill) ! 1) = ''At Blank 2: the host'' \<and>
   originalId (foundBlanks example_fill ! 0) = 2 \<and>
   instruction (steps example_fill ! 1) = ''Fill Blank 2 with the port'' \<and>
   header_bounded 2 ''Fill Blank 2 with the port'' \<and>
   instruction (steps (postProcess example_fill) ! 0) = ''Fill Blank 2 with the port''"
proof -
  let ?ins = "''at  blank 1: the host''" and ?kept = "''Fill Blank 2 with the port''"
  have f: "map originalId (foundBlanks example_fill) = [2, 1]" by code_simp
  have x: "exact_indices example_fill" unfolding exact_indices_def f by simp
  have i: "1 < length (foundBlanks example_fill)" by code_simp
  have d: "1 = originalId (foundBlanks example_fill ! 1)" by code_simp
  have l: "(1::nat) \<le> 1" "1 \<le> length (steps example_fill)" by code_simp+
  have s: "?ins = instruction (steps example_fill ! (1 - 1))" by code_simp
  have hb: "header_bounded 1 ?ins" by code_simp
  have m: "match_header 1 ?ins = Some '': the host''" by code_simp
  have e: "[] @ ''At Blank '' @ show_nat (1 + 1) @ replace_header 1 (1 + 1) '': the host''
      = ''At Blank 2: the host''" by code_simp
  have p: "?ins = [] @ ?ins \<and> (\<forall>j < length ([] :: string). match_header 1 (drop j ?ins) = None) \<and>
      match_header 1 ?ins = Some '': the host''"
    using m by simp
  from instruction_header_rewritten [OF i d l s x hb] p
  have "instruction (steps (postProcess example_fill) ! 1)
      = [] @ ''At Blank '' @ show_nat (1 + 1) @ replace_header 1 (1 + 1) '': the host''"
    by blast
  then have a: "instruction (steps (postProcess example_fill) ! 1) = ''At Blank 2: the host''"
    unfolding e .
  have i0: "0 < length (foundBlanks example_fill)" by code_simp
  have d0: "2 = originalId (foundBlanks example_fill ! 0)" by code_simp
  have l0: "(1::nat) \<le> 2" "2 \<le> length (steps example_fill)" by code_simp+
  have s0: "?kept = instruction (steps example_fill ! (2 - 1))" by code_simp
  have hb0: "header_bounded 2 ?kept" by code_simp
  have "list_all (\<lambda>j. match_header 2 (drop j ?kept) = None) [0 ..< length ?kept]"
    by code_simp
  then have n0: "\<forall>j < length ?kept. match_header 2 (drop j ?kept) = None"
    unfolding list_all_iff by (metis atLeastLessThan_iff le0 set_upt)
  from instruction_header_rewritten [OF i0 d0 l0 s0 x hb0] n0
  have b: "instruction (steps (postProcess example_fill) ! 0) = ?kept" by blast
  have s0': "instruction (steps example_fill ! 1) = ?kept" by code_simp
  from x i d [symmetric] s hb m a d0 [symmetric] s0' hb0 b show ?thesis by simp
qed

section \<open>Text outside the markers\<close>

text \<open>
  C5. The template rewriter changes the marker spans only: the pieces of text before,
  between and behind the markers of the rewritten template are those of the original
  template, so stripping the markers from both gives the same string.
\<close>

theorem template_text_preserved:
  "textParts (codeTemplate (postProcess sc)) = textParts (codeTemplate sc) \<and>
   stripMarkers (codeTemplate (postProcess sc)) = stripMarkers (codeTemplate sc)"
  by (simp add: postProcess_eq textParts_renumber stripMarkers_renumber)

section \<open>Missing steps\<close>

text \<open>
  C6. Where the declared index of a marker has no step at the position before it (it is 0
  or exceeds the number of steps), the post-processing still returns: the step list has
  one entry per marker and the entry at that marker's position is the fixed sentinel.
\<close>

theorem missing_step_sentinel:
  assumes "i < length (foundBlanks sc)"
    and "originalId (foundBlanks sc ! i) = 0 \<or> length (steps sc) < originalId (foundBlanks sc ! i)"
  shows "length (steps (postProcess sc)) = length (foundBlanks sc) \<and>
    steps (postProcess sc) ! i =
      \<lparr>step_id = ''step_'' @ show_nat (i + 1), instruction = ''Missing step definition.'',
       expectedAnswer = ''???'', outputSimulation = []\<rparr>"
proof -
  from assms(1) have ne: "foundBlanks sc \<noteq> []" by auto
  show ?thesis
    unfolding postProcess_steps [OF ne]
    using assms by (auto simp: length_remapSteps nth_remapSteps relocate_def sentinel_def)
qed

theorem missing_step_sentinel_witness:
  "length (foundBlanks example_3_markers_2_steps) = 3 \<and>
   length (steps example_3_markers_2_steps) = 2 \<and>
   length (steps (postProcess example_3_markers_2_steps)) = 3 \<and>
   steps (postProcess example_3_markers_2_steps) ! 2 =
     \<lparr>step_id = ''step_3'', instruction = ''Missing step definition.'',
      expectedAnswer = ''???'', outputSimulation = []\<rparr>"
proof -
  have f: "map originalId (foundBlanks example_3_markers_2_steps) = [1, 2, 3]" by code_simp
  have l: "length (foundBlanks example_3_markers_2_steps) = 3" by code_simp
  have d: "originalId (foundBlanks example_3_markers_2_steps ! 2) = 3" by code_simp
  have s: "length (steps example_3_markers_2_steps) = 2"
    by (simp add: example_3_markers_2_steps_def scenario_of_def)
  have i: "2 < length (foundBlanks example_3_markers_2_steps)" using l by simp
  have m: "originalId (foundBlanks example_3_markers_2_steps ! 2) = 0 \<or>
      length (steps example_3_markers_2_steps) < originalId (foundBlanks example_3_markers_2_steps ! 2)"
    using d s by simp
  have n: "show_nat 3 = ''3''" by code_simp
  from missing_step_sentinel [OF i m] l s n show ?thesis by simp
qed

section \<open>Input that is already normalised\<close>

text \<open>
  C7 as stated fails. In \<open>example_lowercase\<close> the only marker is \<open>___BLANK_1___\<close>, declared
  indices ascending and contiguous from 1, and the context \<open>at blank 1: ...\<close> is re-spelled
  \<open>At Blank 1: ...\<close>. In \<open>example_gap\<close> the declared indices are 1 and 3; the first run
  leaves \<open>at blank 2\<close> alone, 2 being no declared index, and the second run, where the
  markers read 1 and 2, re-spells it: the first result is not a fixed point.
\<close>

theorem normalized_input_counterexample:
  "map originalId (foundBlanks example_lowercase) = [1] \<and>
   context_text example_lowercase = ''at blank 1: pick the image'' \<and>
   context_text (postProcess example_lowercase) = ''At Blank 1: pick the image'' \<and>
   postProcess example_lowercase \<noteq> example_lowercase \<and>
   map originalId (foundBlanks example_gap) = [1, 3] \<and>
   context_text (postProcess example_gap) = ''at blank 2: pick the tag'' \<and>
   context_text (postProcess (postProcess example_gap)) = ''At Blank 2: pick the tag'' \<and>
   postProcess (postProcess example_gap) \<noteq> postProcess example_gap"
proof -
  have a: "map originalId (foundBlanks example_lowercase) = [1]" by code_simp
  have b: "context_text example_lowercase = ''at blank 1: pick the image''" by code_simp
  have c: "context_text (postProcess example_lowercase) = ''At Blank 1: pick the image''"
    by code_simp
  have d: "postProcess example_lowercase \<noteq> example_lowercase"
  proof
    assume "postProcess example_lowercase = example_lowercase"
    then have "context_text (postProcess example_lowercase) = context_text example_lowercase"
      by simp
    then show False unfolding b c by simp
  qed
  have e: "map originalId (foundBlanks example_gap) = [1, 3]" by code_simp
  have f: "context_text (postProcess example_gap) = ''at blank 2: pick the tag''" by code_simp
  have g: "context_text (postProcess (postProcess example_gap)) = ''At Blank 2: pick the tag''"
    by code_simp
  have h: "postProcess (postProcess example_gap) \<noteq> postProcess example_gap"
  proof
    assume "postProcess (postProcess example_gap) = postProcess example_gap"
    then have "context_text (postProcess (postProcess example_gap))
        = context_text (postProcess example_gap)" by simp
    then show False unfolding f g by simp
  qed
  from a b c d e f g h show ?thesis by blast
qed

text \<open>
  C7, amended. A scenario whose template has no marker is returned unchanged. For a
  scenario whose markers are literally \<open>___BLANK_1___\<close>, ..., \<open>___BLANK_n___\<close> in this order,
  the template is unchanged; the steps are unchanged when there are exactly \<open>n\<close> of them,
  step \<open>k\<close> is identified as \<open>step_k\<close> and every match of its header pattern in its
  instruction is spelled \<open>At Blank k\<close>; the context is unchanged when every match of the
  context pattern whose number is a declared index is spelled \<open>At Blank\<close> followed by the
  canonical index. A second run changes neither the template, nor the number of steps,
  nor the identifier, expected answer and output simulation of any step.
\<close>

theorem normalized_input_unchanged:
  "(foundBlanks sc = [] \<longrightarrow> postProcess sc = sc) \<and>
   (map marker (foundBlanks sc) = map newMarker [0 ..< length (foundBlanks sc)] \<longrightarrow>
      codeTemplate (postProcess sc) = codeTemplate sc \<and>
      (length (steps sc) = length (foundBlanks sc) \<and>
       (\<forall>i < length (steps sc).
          step_id (steps sc ! i) = ''step_'' @ show_nat (i + 1) \<and>
          header_canonical (i + 1) (instruction (steps sc ! i))) \<longrightarrow>
       steps (postProcess sc) = steps sc) \<and>
      (context_canonical (idMap sc) (context_text sc) \<longrightarrow>
       context_text (postProcess sc) = context_text sc)) \<and>
   codeTemplate (postProcess (postProcess sc)) = codeTemplate (postProcess sc) \<and>
   length (steps (postProcess (postProcess sc))) = length (steps (postProcess sc)) \<and>
   (\<forall>i < length (steps (postProcess sc)).
      step_id (steps (postProcess (postProcess sc)) ! i) = step_id (steps (postProcess sc) ! i) \<and>
      expectedAnswer (steps (postProcess (postProcess sc)) ! i)
        = expectedAnswer (steps (postProcess sc) ! i) \<and>
      outputSimulation (steps (postProcess (postProcess sc)) ! i)
        = outputSimulation (steps (postProcess sc) ! i))"
proof -
  have a: "foundBlanks sc = [] \<longrightarrow> postProcess sc = sc"
    by (simp add: postProcess_eq)
  have b: "map marker (foundBlanks sc) = map newMarker [0 ..< length (foundBlanks sc)] \<longrightarrow>
      codeTemplate (postProcess sc) = codeTemplate sc \<and>
      (length (steps sc) = length (foundBlanks sc) \<and>
       (\<forall>i < length (steps sc).
          step_id (steps sc ! i) = ''step_'' @ show_nat (i + 1) \<and>
          header_canonical (i + 1) (instruction (steps sc ! i))) \<longrightarrow>
       steps (postProcess sc) = steps sc) \<and>
      (context_canonical (idMap sc) (context_text sc) \<longrightarrow>
       context_text (postProcess sc) = context_text sc)"
  proof (intro impI conjI)
    assume m: "map marker (foundBlanks sc) = map newMarker [0 ..< length (foundBlanks sc)]"
    show "codeTemplate (postProcess sc) = codeTemplate sc"
      unfolding postProcess_template
      using renumber_fixed [of 0 "codeTemplate sc" 0] m by (simp add: foundBlanks_eq)
  next
    assume m: "map marker (foundBlanks sc) = map newMarker [0 ..< length (foundBlanks sc)]"
      and h: "length (steps sc) = length (foundBlanks sc) \<and>
       (\<forall>i < length (steps sc).
          step_id (steps sc ! i) = ''step_'' @ show_nat (i + 1) \<and>
          header_canonical (i + 1) (instruction (steps sc ! i)))"
    show "steps (postProcess sc) = steps sc"
    proof (cases "foundBlanks sc = []")
      case True
      then show ?thesis by (simp add: postProcess_eq)
    next
      case False
      show ?thesis
        unfolding postProcess_steps [OF False]
      proof (rule nth_equalityI)
        show "length (remapSteps (steps sc) (foundBlanks sc)) = length (steps sc)"
          using h by (simp add: length_remapSteps)
      next
        fix i assume "i < length (remapSteps (steps sc) (foundBlanks sc))"
        then have i: "i < length (foundBlanks sc)" by (simp add: length_remapSteps)
        with h have i': "i < length (steps sc)" by simp
        have "relocate (steps sc) i (foundBlanks sc ! i) = steps sc ! i"
          using relocate_canonical [OF foundBlanks_canonical_ids [OF m i] i'] h i' by blast
        then show "remapSteps (steps sc) (foundBlanks sc) ! i = steps sc ! i"
          unfolding nth_remapSteps [OF i] .
      qed
    qed
  next
    assume "context_canonical (idMap sc) (context_text sc)"
    then show "context_text (postProcess sc) = context_text sc"
      unfolding postProcess_context by (rule replace_context_canonical)
  qed
  have c: "codeTemplate (postProcess (postProcess sc)) = codeTemplate (postProcess sc)"
    by (simp add: postProcess_template renumber_idem)
  note T = postProcess_twice_steps [of sc]
  from T have d: "length (steps (postProcess (postProcess sc))) = length (steps (postProcess sc))"
    by (rule conjunct1)
  have e: "\<forall>i < length (steps (postProcess sc)).
      step_id (steps (postProcess (postProcess sc)) ! i) = step_id (steps (postProcess sc) ! i) \<and>
      expectedAnswer (steps (postProcess (postProcess sc)) ! i)
        = expectedAnswer (steps (postProcess sc) ! i) \<and>
      outputSimulation (steps (postProcess (postProcess sc)) ! i)
        = outputSimulation (steps (postProcess sc) ! i)"
  proof (intro allI impI)
    fix i assume "i < length (steps (postProcess sc))"
    with T have "steps (postProcess (postProcess sc)) ! i =
        (steps (postProcess sc) ! i)
          \<lparr>instruction := instruction (steps (postProcess (postProcess sc)) ! i)\<rparr>" by blast
    then have "\<exists>v. steps (postProcess (postProcess sc)) ! i
        = (steps (postProcess sc) ! i)\<lparr>instruction := v\<rparr>" by blast
    then obtain v where "steps (postProcess (postProcess sc)) ! i
        = (steps (postProcess sc) ! i)\<lparr>instruction := v\<rparr>" by blast
    then show "step_id (steps (postProcess (postProcess sc)) ! i) = step_id (steps (postProcess sc) ! i) \<and>
      expectedAnswer (steps (postProcess (postProcess sc)) ! i)
        = expectedAnswer (steps (postProcess sc) ! i) \<and>
      outputSimulation (steps (postProcess (postProcess sc)) ! i)
        = outputSimulation (steps (postProcess sc) ! i)" by simp
  qed
  from a b c d e show ?thesis by blast
qed

theorem normalized_input_unchanged_witness:
  "foundBlanks example_plain = [] \<and> postProcess example_plain = example_plain \<and>
   map marker (foundBlanks example_canonical) = [''___BLANK_1___'', ''___BLANK_2___''] \<and>
   context_canonical (idMap example_canonical) (context_text example_canonical) \<and>
   postProcess example_canonical = example_canonical \<and>
   codeTemplate (postProcess (postProcess example_gap)) = ''FROM ___BLANK_1___:___BLANK_2___'' \<and>
   step_id (steps (postProcess (postProcess example_gap)) ! 1) = ''step_2''"
proof -
  let ?sc = example_canonical
  have p: "foundBlanks example_plain = []" by code_simp
  from normalized_input_unchanged [of example_plain] p
  have a: "postProcess example_plain = example_plain" by blast
  have m: "map marker (foundBlanks ?sc) = map newMarker [0 ..< length (foundBlanks ?sc)]"
    by code_simp
  have m': "map marker (foundBlanks ?sc) = [''___BLANK_1___'', ''___BLANK_2___'']" by code_simp
  have l: "length (steps ?sc) = length (foundBlanks ?sc)" by code_simp
  have s: "list_all (\<lambda>i. step_id (steps ?sc ! i) = ''step_'' @ show_nat (i + 1) \<and>
          header_canonical (i + 1) (instruction (steps ?sc ! i))) [0 ..< length (steps ?sc)]"
    by code_simp
  then have s': "\<forall>i < length (steps ?sc).
          step_id (steps ?sc ! i) = ''step_'' @ show_nat (i + 1) \<and>
          header_canonical (i + 1) (instruction (steps ?sc ! i))"
    by (simp add: list_all_iff)
  have c: "context_canonical (idMap ?sc) (context_text ?sc)" by code_simp
  note T = normalized_input_unchanged [of ?sc]
  from T m have t1: "codeTemplate (postProcess ?sc) = codeTemplate ?sc" by blast
  from T m l s' have t2: "steps (postProcess ?sc) = steps ?sc" by blast
  from T m c have t3: "context_text (postProcess ?sc) = context_text ?sc" by blast
  have fr: "scenario_id (postProcess ?sc) = scenario_id ?sc"
    "title (postProcess ?sc) = title ?sc" "description (postProcess ?sc) = description ?sc"
    "difficulty (postProcess ?sc) = difficulty ?sc" "environment (postProcess ?sc) = environment ?sc"
    by (simp_all add: postProcess_def)
  have b: "postProcess ?sc = ?sc"
    using t1 t2 t3 fr by (intro LogicScenario.equality) simp_all
  have g1: "codeTemplate (postProcess example_gap) = ''FROM ___BLANK_1___:___BLANK_2___''"
    by code_simp
  have g2: "1 < length (steps (postProcess example_gap))" by code_simp
  have g3: "step_id (steps (postProcess example_gap) ! 1) = ''step_2''" by code_simp
  note G = normalized_input_unchanged [of example_gap]
  from G have d: "codeTemplate (postProcess (postProcess example_gap))
      = ''FROM ___BLANK_1___:___BLANK_2___''"
    unfolding g1 by blast
  from G g2 have "step_id (steps (postProcess (postProcess example_gap)) ! 1)
      = step_id (steps (postProcess example_gap) ! 1)" by blast
  then have e: "step_id (steps (postProcess (postProcess example_gap)) ! 1) = ''step_2''"
    unfolding g3 .
  from p a m' c b d e show ?thesis by blast
qed

section \<open>Repeated declared indices\<close>

text \<open>
  C8. The post-processing is total also when declared indices repeat. For declared
  indices below \<open>2^53\<close>, where \<open>parseInt\<close> is exact: the markers of the result carry the
  indices 1, 2, ... in physical order, one per occurrence, and \<open>idMap\<close> binds a declared
  index to the canonical index of its last occurrence.
\<close>

theorem duplicate_declared_index:
  assumes "exact_indices sc"
  shows "map originalId (foundBlanks (postProcess sc)) = [1 ..< length (foundBlanks sc) + 1] \<and>
   (\<forall>i < length (foundBlanks sc).
      (\<forall>j. i < j \<and> j < length (foundBlanks sc) \<longrightarrow>
           originalId (foundBlanks sc ! j) \<noteq> originalId (foundBlanks sc ! i)) \<longrightarrow>
      idMap sc (originalId (foundBlanks sc ! i)) = Some (i + 1))"
  using foundBlanks_postProcess [of sc] by (auto simp: idMap_def build_idMap_last)

theorem duplicate_declared_index_witness:
  "exact_indices example_duplicate \<and>
   map originalId (foundBlanks example_duplicate) = [1, 1] \<and>
   map originalId (foundBlanks (postProcess example_duplicate)) = [1, 2] \<and>
   idMap example_duplicate 1 = Some 2"
proof -
  have f: "map originalId (foundBlanks example_duplicate) = [1, 1]" by code_simp
  have x: "exact_indices example_duplicate" unfolding exact_indices_def f by simp
  have l: "length (foundBlanks example_duplicate) = 2" by code_simp
  have d: "originalId (foundBlanks example_duplicate ! 1) = 1" by code_simp
  note T = duplicate_declared_index [OF x]
  from T have a: "map originalId (foundBlanks (postProcess example_duplicate)) = [1, 2]"
    by (simp add: l upt_conv_Cons)
  have i: "1 < length (foundBlanks example_duplicate)" using l by simp
  have p: "\<forall>j. 1 < j \<and> j < length (foundBlanks example_duplicate) \<longrightarrow>
      originalId (foundBlanks example_duplicate ! j) \<noteq> originalId (foundBlanks example_duplicate ! 1)"
    using l by simp
  have e: "Some (1 + 1) = Some (2::nat)" by simp
  from T i p
  have "idMap example_duplicate (originalId (foundBlanks example_duplicate ! 1)) = Some (1 + 1)"
    by blast
  then have b: "idMap example_duplicate 1 = Some 2"
    unfolding d e .
  from x f a b show ?thesis by simp
qed



section \<open>One rewrite per reference\<close>

text \<open>
  C9 as stated fails for the occurrences it names: the rewrite is applied to the matches
  of \<open>At\s+Blank\s+(\d+)\<close>, not to every \<open>Blank <number>\<close>. In \<open>example_bare\<close> the context
  has the occurrences \<open>Blank 2\<close> and \<open>Blank 1\<close>, both numbers are keys of \<open>idMap\<close> with
  another value, and the rewrite is applied to neither of them.
\<close>

theorem context_occurrence_counterexample:
  "context_text example_bare = ''Use Blank 2 first, then Blank 1.'' \<and>
   spec_blank_refs (context_text example_bare) = [2, 1] \<and>
   idMap example_bare 2 = Some 1 \<and> idMap example_bare 1 = Some 2 \<and>
   pieces (context_text example_bare) = map Plain (context_text example_bare) \<and>
   context_text (postProcess example_bare) = ''Use Blank 2 first, then Blank 1.'' \<and>
   context_text (postProcess example_bare) \<noteq> ''Use Blank 1 first, then Blank 2.''"
  by code_simp

text \<open>
  C9, amended. With all declared indices below \<open>2^53\<close>, the context rewrite treats every
  match of \<open>At\s+Blank\s+(\d+)\<close> (flag \<open>i\<close>) on its own and once: where the pattern matches
  in the context, whatever text precedes the match, the assembled context is the rewrite
  of the preceding text, then the replacement computed from the number of the original
  match, then the rewrite of the text behind the match; the replacement itself is not
  scanned again. A match whose number is not a key of \<open>idMap\<close> is copied character for
  character, as is every character outside the matches, a \<open>Blank <number>\<close> with no \<open>At\<close>
  before it included; the assembled context has one piece for each piece of the
  original, and a context in which no match has a key of \<open>idMap\<close> as its number is
  returned unchanged.
\<close>

theorem context_rewrite_once:
  assumes "exact_indices sc"
  shows "(\<forall>pre s ds r. context_text sc = pre @ s \<and> match_context s = Some (ds, r) \<longrightarrow>
      context_text (postProcess sc) =
        replace_context (idMap sc) pre
        @ (case idMap sc (parseInt ds) of
             Some newId \<Rightarrow> ''At Blank '' @ show_nat newId
           | None \<Rightarrow> take (length s - length r) s)
        @ replace_context (idMap sc) r) \<and>
   pieces (context_text (postProcess sc)) = map (respell (idMap sc)) (pieces (context_text sc)) \<and>
   (\<forall>raw ds. idMap sc (parseInt ds) = None \<longrightarrow>
      respell (idMap sc) (Reference raw ds) = Reference raw ds) \<and>
   (\<forall>c. respell (idMap sc) (Plain c) = Plain c) \<and>
   ((\<forall>n \<in> set (at_refs (context_text sc)). idMap sc n = None) \<longrightarrow>
      context_text (postProcess sc) = context_text sc)"
proof (intro conjI allI impI)
  fix pre s ds r
  assume h: "context_text sc = pre @ s \<and> match_context s = Some (ds, r)"
  then have c: "context_text sc = pre @ s" and m: "match_context s = Some (ds, r)" by simp_all
  from match_context_At [OF m] obtain a t z where
    s: "s = a # t # z" and a: "ci_eq CHR ''A'' a" "ci_eq CHR ''t'' t" by blast
  have "replace_context (idMap sc) (pre @ s)
      = replace_context (idMap sc) pre @ replace_context (idMap sc) s"
    unfolding s by (rule replace_context_append [OF a])
  moreover have "(case idMap sc (parseInt ds) of
        Some newId \<Rightarrow> if newId \<noteq> 0 then ''At Blank '' @ show_nat newId
                       else take (length s - length r) s
      | None \<Rightarrow> take (length s - length r) s)
    = (case idMap sc (parseInt ds) of
        Some newId \<Rightarrow> ''At Blank '' @ show_nat newId
      | None \<Rightarrow> take (length s - length r) s)"
    by (auto simp: idMap_def dest: build_idMap_pos split: option.splits)
  ultimately show "context_text (postProcess sc) =
        replace_context (idMap sc) pre
        @ (case idMap sc (parseInt ds) of
             Some newId \<Rightarrow> ''At Blank '' @ show_nat newId
           | None \<Rightarrow> take (length s - length r) s)
        @ replace_context (idMap sc) r"
    unfolding postProcess_context c replace_context_match [OF m] by simp
next
  show "pieces (context_text (postProcess sc)) = map (respell (idMap sc)) (pieces (context_text sc))"
    unfolding postProcess_context by (rule pieces_replace_context)
next
  fix raw ds assume "idMap sc (parseInt ds) = None"
  then show "respell (idMap sc) (Reference raw ds) = Reference raw ds" by simp
next
  fix c show "respell (idMap sc) (Plain c) = Plain c" by simp
next
  assume "\<forall>n \<in> set (at_refs (context_text sc)). idMap sc n = None"
  then show "context_text (postProcess sc) = context_text sc"
    unfolding postProcess_context by (rule replace_context_unmapped)
qed

theorem context_rewrite_once_witness:
  "exact_indices example_unmapped \<and> exact_indices example_swap \<and>
   context_text example_unmapped = ''Swap At Blank 1 with at blank 2; see '' @ ''At Blank 7.'' \<and>
   match_context ''At Blank 7.'' = Some (''7'', ''.'') \<and>
   idMap example_unmapped 7 = None \<and>
   context_text (postProcess example_unmapped)
     = ''Swap At Blank 2 with At Blank 1; see '' @ ''At Blank 7'' @ ''.'' \<and>
   respell (idMap example_unmapped) (Reference ''At Blank 7'' ''7'') = Reference ''At Blank 7'' ''7'' \<and>
   at_refs (context_text example_swap) = [] \<and>
   context_text (postProcess example_swap) = context_text example_swap"
proof -
  let ?pre = "''Swap At Blank 1 with at blank 2; see ''"
  have f: "map originalId (foundBlanks example_unmapped) = [2, 1]" by code_simp
  have x: "exact_indices example_unmapped" unfolding exact_indices_def f by simp
  have f': "map originalId (foundBlanks example_swap) = [2, 1]" by code_simp
  have x': "exact_indices example_swap" unfolding exact_indices_def f' by simp
  have c: "context_text example_unmapped = ?pre @ ''At Blank 7.''" by code_simp
  have m: "match_context ''At Blank 7.'' = Some (''7'', ''.'')" by code_simp
  have k: "idMap example_unmapped 7 = None" by code_simp
  have k': "idMap example_unmapped (parseInt ''7'') = None" by code_simp
  have e: "replace_context (idMap example_unmapped) ?pre
           @ (case idMap example_unmapped (parseInt ''7'') of
                Some newId \<Rightarrow> ''At Blank '' @ show_nat newId
              | None \<Rightarrow> take (length ''At Blank 7.'' - length ''.'') ''At Blank 7.'')
           @ replace_context (idMap example_unmapped) ''.''
        = ''Swap At Blank 2 with At Blank 1; see '' @ ''At Blank 7'' @ ''.''" by code_simp
  note T = context_rewrite_once [OF x]
  from T c m
  have "context_text (postProcess example_unmapped)
      = replace_context (idMap example_unmapped) ?pre
           @ (case idMap example_unmapped (parseInt ''7'') of
                Some newId \<Rightarrow> ''At Blank '' @ show_nat newId
              | None \<Rightarrow> take (length ''At Blank 7.'' - length ''.'') ''At Blank 7.'')
           @ replace_context (idMap example_unmapped) ''.''"
    by blast
  then have o: "context_text (postProcess example_unmapped)
     = ''Swap At Blank 2 with At Blank 1; see '' @ ''At Blank 7'' @ ''.''"
    unfolding e .
  from T k'
  have q: "respell (idMap example_unmapped) (Reference ''At Blank 7'' ''7'') = Reference ''At Blank 7'' ''7''"
    by blast
  have n: "at_refs (context_text example_swap) = []" by code_simp
  then have "\<forall>n \<in> set (at_refs (context_text example_swap)). idMap example_swap n = None"
    by simp
  with context_rewrite_once [OF x']
  have "context_text (postProcess example_swap) = context_text example_swap" by blast
  with x x' c m k o q n show ?thesis by blast
qed

section \<open>Frame of the post-processing\<close>

text \<open>
  C10. Post-processing writes only the fields \<open>context\<close>, \<open>codeTemplate\<close> and \<open>steps\<close>: the
  identifier, title, description, difficulty and environment of the result are those of
  the scenario assembled from the configuration.
\<close>

theorem postProcess_frame:
  "scenario_id (postProcess sc) = scenario_id sc \<and>
   title (postProcess sc) = title sc \<and>
   description (postProcess sc) = description sc \<and>
   difficulty (postProcess sc) = difficulty sc \<and>
   environment (postProcess sc) = environment sc"
  by (simp add: postProcess_def)

end
